theory Spec2Isabelle
  imports Complex_Main "HOL-Library.Word"
begin

section \<open>The swbd\_mask land/water mask builder\<close>

text \<open>
  A shallow embedding of \<^verbatim>\<open>main.cpp\<close> and \<^verbatim>\<open>maskThread.cpp\<close>. The 32-bit integers of the
  source are modelled as \<^typ>\<open>int\<close>; the places where a value can leave the 32-bit range
  (the file offset taken with ftell, the values handed to bit\_pack, the numbers scanned
  from the command line) carry their wrap-around explicitly. Doubles are modelled as
  \<^typ>\<open>real\<close>: rounding is not modelled, and no statement below depends on it. Diagnostic
  output (stderr) is left out.
\<close>

type_synonym byte = "8 word"

subsection \<open>Names supplied by nvutility\<close>

text \<open>
  Modelled from the spec: \<^verbatim>\<open>NVTrue\<close> and \<^verbatim>\<open>NVFalse\<close> come from nvutility.h, which is not
  part of the sources. The flags are booleans stored one per byte (land is true, water is
  false), so they are the bytes 1 and 0.
\<close>

definition NVTrue :: byte where
  "NVTrue = 1"

definition NVFalse :: byte where
  "NVFalse = 0"

text \<open>
  Modelled from the spec: \<^verbatim>\<open>NINT\<close> is a macro of nvutility.h, which is not part of the
  sources. The spec takes the number of tiles per side to be the square root of the worker
  count, so \<^verbatim>\<open>NINT\<close> is rounding to the nearest integer (half away from zero), with the
  C cast truncating towards zero.
\<close>

definition NINT :: "real \<Rightarrow> int" where
  "NINT a = (if a < 0 then \<lceil>a - 0.5\<rceil> else \<lfloor>a + 0.5\<rfloor>)"

text \<open>
  \<^verbatim>\<open>inside_polygon2 (x, y, count, px, py)\<close> is the point-in-polygon test of nvutility (the
  crossing-number test of one ring, nonzero when the point is inside). It is a parameter
  of the model.
\<close>

type_synonym inside_test = "real list \<Rightarrow> real list \<Rightarrow> int \<Rightarrow> real \<Rightarrow> real \<Rightarrow> int"

subsection \<open>maskThread: the parameters handed to a worker\<close>

record mask_params =
  l_resolution :: int
  l_num_poly :: int
  l_poly_count :: "int list"
  l_poly_y :: "real list list"
  l_poly_x :: "real list list"
  l_sw_lat :: real
  l_sw_lon :: real
  l_num_threads :: int
  l_pass :: int

subsection \<open>maskThread::run\<close>

text \<open>
  The tile of a worker. The divisions and remainders of the source have a non-negative
  dividend and a positive divisor wherever main calls the worker (resolution is one of
  1, 3, 10, 30, 60; the worker count is 4 or 16; the pass is between 0 and the worker
  count), where C's truncating division and HOL's \<open>div\<close> and \<open>mod\<close> agree.
\<close>

definition point_count_of :: "int \<Rightarrow> int" where
  "point_count_of resolution = 3600 div resolution"

definition block_count_of :: "int \<Rightarrow> int" where
  "block_count_of num_threads = NINT (sqrt (real_of_int num_threads))"

definition pass_point_count_of :: "int \<Rightarrow> int \<Rightarrow> int" where
  "pass_point_count_of resolution num_threads =
     point_count_of resolution div block_count_of num_threads"

definition start_x_of :: "int \<Rightarrow> int \<Rightarrow> int \<Rightarrow> int" where
  "start_x_of resolution num_threads pass =
     (pass mod block_count_of num_threads) * pass_point_count_of resolution num_threads"

definition start_y_of :: "int \<Rightarrow> int \<Rightarrow> int \<Rightarrow> int" where
  "start_y_of resolution num_threads pass =
     (pass div block_count_of num_threads) * pass_point_count_of resolution num_threads"

definition end_x_of :: "int \<Rightarrow> int \<Rightarrow> int \<Rightarrow> int" where
  "end_x_of resolution num_threads pass =
     start_x_of resolution num_threads pass + pass_point_count_of resolution num_threads"

definition end_y_of :: "int \<Rightarrow> int \<Rightarrow> int \<Rightarrow> int" where
  "end_y_of resolution num_threads pass =
     start_y_of resolution num_threads pass + pass_point_count_of resolution num_threads"

text \<open>The grid positions \<open>(i, j)\<close> (row, column) that the two loops of a worker visit.\<close>

definition in_tile :: "int \<Rightarrow> int \<Rightarrow> int \<Rightarrow> int \<Rightarrow> int \<Rightarrow> bool" where
  "in_tile resolution num_threads pass i j \<longleftrightarrow>
     start_y_of resolution num_threads pass \<le> i \<and> i < end_y_of resolution num_threads pass \<and>
     start_x_of resolution num_threads pass \<le> j \<and> j < end_x_of resolution num_threads pass"

text \<open>The centre of the bin of row \<open>i\<close> (latitude) or column \<open>j\<close> (longitude).\<close>

definition bin_centre :: "real \<Rightarrow> int \<Rightarrow> int \<Rightarrow> real" where
  "bin_centre sw idx point_count = sw + (real_of_int idx + 0.5) / real_of_int point_count"

text \<open>The loop over all polygons: \<open>inside_count\<close> after the loop.\<close>

definition inside_count_of :: "inside_test \<Rightarrow> mask_params \<Rightarrow> real \<Rightarrow> real \<Rightarrow> int" where
  "inside_count_of inside a slon slat =
     fold (\<lambda>k inside_count.
             if inside (l_poly_x a ! k) (l_poly_y a ! k) (l_poly_count a ! k) slon slat \<noteq> 0
             then inside_count + 1 else inside_count)
          [0..<nat (l_num_poly a)] 0"

text \<open>The flag of one sample: \<open>NVTrue\<close> for land, \<open>NVFalse\<close> for water.\<close>

definition sample_flag :: "inside_test \<Rightarrow> mask_params \<Rightarrow> int \<Rightarrow> int \<Rightarrow> byte" where
  "sample_flag inside a i j =
     (let point_count = point_count_of (l_resolution a);
          slat = bin_centre (l_sw_lat a) i point_count;
          slon = bin_centre (l_sw_lon a) j point_count
      in if inside_count_of inside a slon slat mod 2 \<noteq> 0 then NVFalse else NVTrue)"

text \<open>
  The latitude loop around the longitude loop, on the shared block. A write
  \<open>block[i * point_count + j]\<close> is inside the block for every position of a tile (the
  block has \<open>point_count * point_count\<close> bytes).
\<close>

definition set_sample :: "inside_test \<Rightarrow> mask_params \<Rightarrow> int \<Rightarrow> int \<Rightarrow> byte list \<Rightarrow> byte list" where
  "set_sample inside a i j block =
     block[nat (i * point_count_of (l_resolution a) + j) := sample_flag inside a i j]"

definition run_block :: "inside_test \<Rightarrow> mask_params \<Rightarrow> byte list \<Rightarrow> byte list" where
  "run_block inside a block =
     fold (\<lambda>i. fold (\<lambda>j. set_sample inside a i j)
                  [start_x_of (l_resolution a) (l_num_threads a) (l_pass a) ..
                   end_x_of (l_resolution a) (l_num_threads a) (l_pass a) - 1])
          [start_y_of (l_resolution a) (l_num_threads a) (l_pass a) ..
           end_y_of (l_resolution a) (l_num_threads a) (l_pass a) - 1]
          block"

text \<open>The worker: its tile of the block, then its completion flag.\<close>

definition maskThread_run ::
  "inside_test \<Rightarrow> mask_params \<Rightarrow> byte list \<times> byte list \<Rightarrow> byte list \<times> byte list" where
  "maskThread_run inside a st =
     (run_block inside a (fst st), (snd st)[nat (l_pass a) := NVTrue])"

subsection \<open>bit\_pack and bit\_unpack\<close>

text \<open>
  Modelled from the spec: \<^verbatim>\<open>bit_pack\<close> and \<^verbatim>\<open>bit_unpack\<close> belong to nvutility, which is
  not part of the sources. The spec fixes the packing order: bit \<open>i\<close> of a buffer is bit
  \<open>i mod 8\<close> of byte \<open>i div 8\<close>. A field of \<open>numbits\<close> bits starting at bit \<open>start\<close>
  holds the low \<open>numbits\<close> bits of the (two's complement) value, lowest bit first; the
  spec leaves the order inside a field open, and nothing below depends on it. Bits of a
  byte are numbered as \<open>bit\<close> numbers them.
\<close>

definition put_bit :: "byte list \<Rightarrow> nat \<Rightarrow> bool \<Rightarrow> byte list" where
  "put_bit buffer pos b =
     buffer[pos div 8 := (if b then set_bit (pos mod 8) (buffer ! (pos div 8))
                          else unset_bit (pos mod 8) (buffer ! (pos div 8)))]"

definition get_bit :: "byte list \<Rightarrow> nat \<Rightarrow> bool" where
  "get_bit buffer pos = bit (buffer ! (pos div 8)) (pos mod 8)"

fun bit_pack :: "byte list \<Rightarrow> nat \<Rightarrow> nat \<Rightarrow> int \<Rightarrow> byte list" where
  "bit_pack buffer start 0 v = buffer"
| "bit_pack buffer start (Suc numbits) v =
     bit_pack (put_bit buffer start (odd v)) (Suc start) numbits (v div 2)"

fun bit_unpack :: "byte list \<Rightarrow> nat \<Rightarrow> nat \<Rightarrow> nat" where
  "bit_unpack buffer start 0 = 0"
| "bit_unpack buffer start (Suc numbits) =
     (if get_bit buffer start then 1 else 0) + 2 * bit_unpack buffer (Suc start) numbits"

subsection \<open>The output file\<close>

text \<open>
  The stream \<^verbatim>\<open>ofp\<close>: the bytes of the file and the file position. Writes and seeks are
  taken to succeed on the file system's side; what the source ignores (the result of
  fseek) is ignored here too. A seek to a negative offset fails and leaves the position
  where it was. The type long of ftell and fseek is taken to be 64 bits wide.
\<close>

record ofile =
  content :: "byte list"
  fpos :: nat

definition fwrite :: "byte list \<Rightarrow> ofile \<Rightarrow> ofile" where
  "fwrite buf f =
     (if buf = [] then f
      else \<lparr>content =
              (if fpos f \<le> length (content f)
               then take (fpos f) (content f) @ buf @ drop (fpos f + length buf) (content f)
               else content f @ replicate (fpos f - length (content f)) 0 @ buf),
            fpos = fpos f + length buf\<rparr>)"

definition fseek_set :: "int \<Rightarrow> ofile \<Rightarrow> ofile" where
  "fseek_set offset f = (if offset < 0 then f else f\<lparr>fpos := nat offset\<rparr>)"

definition fseek_end :: "ofile \<Rightarrow> ofile" where
  "fseek_end f = f\<lparr>fpos := length (content f)\<rparr>"

definition ftell :: "ofile \<Rightarrow> int" where
  "ftell f = int (fpos f)"

text \<open>Conversions to the 32-bit types of the source (two's complement wrap-around).\<close>

definition to_int32 :: "int \<Rightarrow> int" where
  "to_int32 v = sint (word_of_int v :: 32 word)"

definition to_uint32 :: "int \<Rightarrow> int" where
  "to_uint32 v = uint (word_of_int v :: 32 word)"

subsection \<open>The collaborators of main\<close>

text \<open>
  A shape object as the shapefile library returns it (the fields main reads).
\<close>

record shape =
  nVertices :: int
  nParts :: int
  panPartStart :: "int list"
  padfX :: "real list"
  padfY :: "real list"

text \<open>
  The name of a shape file: the arguments of the sprintf that builds it after the
  directory (hemisphere letter and degrees of longitude, hemisphere letter and degrees of
  latitude, data set letter).
\<close>

type_synonym shp_name = "char \<times> int \<times> char \<times> int \<times> char"

text \<open>
  Everything main takes from outside: the environment, the file system, the shapefile
  library, the 3 second SRTM mask of nvutility, the point-in-polygon test of nvutility
  and the deflate run of zlib. \<open>deflate w source level\<close> is the status of the run (0 is
  Z\_OK) and the bytes of the compressed stream that follow its two header bytes.
\<close>

record world =
  getenv_ABE_DATA :: "string option"
  check_srtm_mask :: "int \<Rightarrow> int"
  ofile_opens :: bool
  VERSION :: string
  zlibVersion :: string
  asctime :: string
  shp_exists :: "shp_name \<Rightarrow> bool"
  SHPOpen :: "shp_name \<Rightarrow> shape list option"
  read_srtm_mask_min_res :: "real \<Rightarrow> real \<Rightarrow> int \<Rightarrow> int"
  inside_polygon2 :: inside_test
  deflate :: "byte list \<Rightarrow> int \<Rightarrow> int \<times> byte list"

text \<open>
  zlib's compress2 called with a destination buffer of \<open>cap\<close> bytes, as zlib.h and RFC 1950
  have it: a status of the deflate run other than Z\_OK is returned as it is; a zlib stream
  starts with the two header bytes CMF and FLG (0x78 and 0xDA at level 9); a stream longer
  than the destination buffer gives the status Z\_BUF\_ERROR; otherwise the status is
  Z\_OK, and the stream is what the call leaves in the buffer and its length what the call
  leaves in \<open>out_size\<close>.
\<close>

definition Z_OK :: int where
  "Z_OK = 0"

definition Z_BUF_ERROR :: int where
  "Z_BUF_ERROR = -5"

definition zlib_header :: "byte list" where
  "zlib_header = [0x78, 0xDA]"

definition compress2 :: "world \<Rightarrow> nat \<Rightarrow> byte list \<Rightarrow> int \<Rightarrow> int \<times> byte list" where
  "compress2 w cap source level =
     (let (n, body) = deflate w source level;
          stream = zlib_header @ body
      in if n \<noteq> Z_OK then (n, [])
         else if cap < length stream then (Z_BUF_ERROR, [])
         else (Z_OK, stream))"

datatype usage_site = TooFewArguments | BadResolution | BadThreadCount

datatype error =
    Usage usage_site
  | NoAbeData
  | NoSrtmMask
  | OutputOpenFailed
  | ShpOpenFailed
  | MemoryFault
  | CompressFailed int

text \<open>
  What main does to the outside, in order: a query of the SRTM mask, the start of a worker,
  a call of the compressor (with the length of its input) and a write of \<open>n\<close> bytes at an
  offset of the output file.
\<close>

datatype event =
    SrtmRead real real
  | MaskStart int
  | Compress nat
  | FWrite nat nat

record state =
  ofp :: ofile
  mapbuf :: "byte list"
  total_blocks :: int
  events :: "event list"

definition st_fwrite :: "byte list \<Rightarrow> state \<Rightarrow> state" where
  "st_fwrite buf s =
     s\<lparr>ofp := fwrite buf (ofp s),
       events := events s @ [FWrite (fpos (ofp s)) (length buf)]\<rparr>"

definition st_fseek_set :: "int \<Rightarrow> state \<Rightarrow> state" where
  "st_fseek_set offset s = s\<lparr>ofp := fseek_set offset (ofp s)\<rparr>"

definition st_fseek_end :: "state \<Rightarrow> state" where
  "st_fseek_end s = s\<lparr>ofp := fseek_end (ofp s)\<rparr>"

definition st_event :: "event \<Rightarrow> state \<Rightarrow> state" where
  "st_event e s = s\<lparr>events := events s @ [e]\<rparr>"

subsection \<open>main: the command line\<close>

text \<open>
  \<^verbatim>\<open>sscanf (s, "%d", &n)\<close>: white space, an optional sign, decimal digits. \<open>None\<close> when no
  number is read, and the variable keeps its value. The C library reads the number as a
  long, which keeps to the range of 64 bits (\<open>strtol_range\<close>), and stores it in the 32-bit
  variable (\<open>to_int32\<close>).
\<close>

definition is_digit :: "char \<Rightarrow> bool" where
  "is_digit c \<longleftrightarrow> 48 \<le> (of_char c :: nat) \<and> (of_char c :: nat) \<le> 57"

definition is_space :: "char \<Rightarrow> bool" where
  "is_space c \<longleftrightarrow> (of_char c :: nat) = 32 \<or> (9 \<le> (of_char c :: nat) \<and> (of_char c :: nat) \<le> 13)"

definition digits_value :: "string \<Rightarrow> int" where
  "digits_value ds = fold (\<lambda>c n. 10 * n + (int (of_char c) - 48)) ds 0"

definition scan_unsigned :: "string \<Rightarrow> int option" where
  "scan_unsigned s =
     (let ds = takeWhile is_digit s in if ds = [] then None else Some (digits_value ds))"

definition strtol_range :: "int \<Rightarrow> int" where
  "strtol_range v = max (- (2 ^ 63)) (min (2 ^ 63 - 1) v)"

definition sscanf_d :: "string \<Rightarrow> int option" where
  "sscanf_d s =
     (case dropWhile is_space s of
        [] \<Rightarrow> None
      | c # cs \<Rightarrow>
          map_option (\<lambda>v. to_int32 (strtol_range v))
            (if c = CHR ''-'' then map_option uminus (scan_unsigned cs)
             else if c = CHR ''+'' then scan_unsigned cs
             else scan_unsigned (c # cs)))"

definition resolution_arg :: "string list \<Rightarrow> int" where
  "resolution_arg argv = (case sscanf_d (argv ! 1) of Some r \<Rightarrow> r | None \<Rightarrow> 0)"

definition num_threads_arg :: "string list \<Rightarrow> int" where
  "num_threads_arg argv =
     (if length argv = 3
      then (case sscanf_d (argv ! 2) of Some n \<Rightarrow> n | None \<Rightarrow> 4)
      else 4)"

text \<open>The checks of main before the output file is opened, in the order of the source.\<close>

definition check_args :: "world \<Rightarrow> string list \<Rightarrow> error + int \<times> int" where
  "check_args w argv =
     (if length argv < 2 then Inl (Usage TooFewArguments)
      else if getenv_ABE_DATA w = None then Inl NoAbeData
      else if check_srtm_mask w 3 \<noteq> 0 then Inl NoSrtmMask
      else let resolution = resolution_arg argv in
        if resolution \<noteq> 1 \<and> resolution \<noteq> 3 \<and> resolution \<noteq> 10 \<and> resolution \<noteq> 30 \<and>
           resolution \<noteq> 60
        then Inl (Usage BadResolution)
        else let num_threads = num_threads_arg argv in
          if num_threads \<noteq> 4 \<and> num_threads \<noteq> 16 then Inl (Usage BadThreadCount)
          else Inr (resolution, num_threads))"

subsection \<open>main: the header and the empty directory\<close>

definition SWBD_MASK_HEADER_SIZE :: int where
  "SWBD_MASK_HEADER_SIZE = 16384"

fun dec :: "nat \<Rightarrow> string" where
  "dec n = (if n < 10 then [char_of (48 + n)] else dec (n div 10) @ [char_of (48 + n mod 10)])"

declare dec.simps [simp del]

definition bytes_of :: "string \<Rightarrow> byte list" where
  "bytes_of s = map (\<lambda>c. of_nat (of_char c)) s"

text \<open>The six fprintf calls of the header (the resolution is positive here).\<close>

definition header_text :: "world \<Rightarrow> int \<Rightarrow> string" where
  "header_text w resolution =
     ''[HEADER SIZE] = '' @ dec (nat SWBD_MASK_HEADER_SIZE) @ [CHR 0x0A] @
     ''[VERSION] = '' @ VERSION w @ [CHR 0x0A] @
     ''[ZLIB VERSION] = '' @ zlibVersion w @ [CHR 0x0A] @
     ''[CREATION DATE] = '' @ asctime w @
     ''[RESOLUTION] = '' @ dec (nat resolution) @ [CHR 0x0A] @
     ''[END OF HEADER]'' @ [CHR 0x0A]"

text \<open>The cells in the order of the two loops: latitude outside, longitude inside.\<close>

definition cells :: "(int \<times> int) list" where
  "cells = List.product [-90 .. 89] [-180 .. 179]"

text \<open>
  The file after the header is written, padded with zero bytes up to the header size, and
  the directory is filled with zero records.
\<close>

definition write_header :: "world \<Rightarrow> int \<Rightarrow> state \<Rightarrow> state" where
  "write_header w resolution s =
     (let s1 = st_fwrite (bytes_of (header_text w resolution)) s;
          j = to_int32 (ftell (ofp s1))
      in fold (\<lambda>i. st_fwrite [0]) [j .. SWBD_MASK_HEADER_SIZE - 1] s1)"

definition write_empty_map :: "state \<Rightarrow> state" where
  "write_empty_map s = fold (\<lambda>c. st_fwrite (replicate 7 0)) cells (s\<lparr>mapbuf := replicate 7 0\<rparr>)"

definition initial_state :: state where
  "initial_state = \<lparr>ofp = \<lparr>content = [], fpos = 0\<rparr>, mapbuf = [], total_blocks = 0, events = []\<rparr>"

subsection \<open>main: one cell\<close>

definition map_address_of :: "int \<Rightarrow> int \<Rightarrow> int" where
  "map_address_of lat lon = to_uint32 (SWBD_MASK_HEADER_SIZE + ((lat + 90) * 360 + (lon + 180)) * 7)"

definition dataset :: "char list" where
  "dataset = [CHR ''a'', CHR ''e'', CHR ''f'', CHR ''i'', CHR ''n'', CHR ''s'', CHR ''x'']"

definition shpname_of :: "int \<Rightarrow> int \<Rightarrow> nat \<Rightarrow> shp_name" where
  "shpname_of lat lon ds =
     (if lon < 0 then CHR ''w'' else CHR ''e'', \<bar>lon\<bar>,
      if lat < 0 then CHR ''s'' else CHR ''n'', \<bar>lat\<bar>, dataset ! ds)"

text \<open>
  The loop that looks for the shape file of the cell: the first of the data sets 0 to 5
  whose file opens (\<open>file_check\<close> and \<open>file_ext\<close> of the source).
\<close>

definition find_shp :: "world \<Rightarrow> int \<Rightarrow> int \<Rightarrow> nat option" where
  "find_shp w lat lon = List.find (\<lambda>ds. shp_exists w (shpname_of lat lon ds)) [0..<6]"

text \<open>fseek to the record of the cell and fwrite of the seven bytes of \<open>mapbuf\<close>.\<close>

definition write_mapbuf :: "int \<Rightarrow> state \<Rightarrow> state" where
  "write_mapbuf map_address s = st_fwrite (mapbuf s) (st_fseek_set map_address s)"

text \<open>A cell with no shape file.\<close>

definition no_file_cell :: "world \<Rightarrow> int \<Rightarrow> int \<Rightarrow> state \<Rightarrow> state" where
  "no_file_cell w lat lon s =
     (let map_address = map_address_of lat lon in
      if lat < -57 \<or> lat > 59
      then write_mapbuf map_address (s\<lparr>mapbuf := replicate 7 0\<rparr>)
      else
        let slat = real_of_int lat + 0.5;
            slon = real_of_int lon + 0.5;
            lnd = read_srtm_mask_min_res w slat slon 3;
            s1 = st_event (SrtmRead slat slon) s
        in if lnd = 0
           then write_mapbuf map_address (s1\<lparr>mapbuf := bit_pack (replicate 7 0) 0 32 2\<rparr>)
           else write_mapbuf map_address (s1\<lparr>mapbuf := bit_pack (replicate 7 0) 0 32 1\<rparr>))"

text \<open>
  The polygons read so far: \<open>num_poly\<close> is the index of the polygon being filled (it
  starts at -1), the three arrays have \<open>num_poly + 1\<close> entries.
\<close>

record polys =
  num_poly :: int
  poly_count :: "int list"
  poly_x :: "real list list"
  poly_y :: "real list list"

definition no_polys :: polys where
  "no_polys = \<lparr>num_poly = -1, poly_count = [], poly_x = [], poly_y = []\<rparr>"

definition start_segment_of :: "polys \<Rightarrow> polys" where
  "start_segment_of p =
     p\<lparr>num_poly := num_poly p + 1,
       poly_count := poly_count p @ [0],
       poly_x := poly_x p @ [[]],
       poly_y := poly_y p @ [[]]\<rparr>"

definition add_point :: "real \<Rightarrow> real \<Rightarrow> polys \<Rightarrow> polys" where
  "add_point x y p =
     (let n = nat (num_poly p) in
      p\<lparr>poly_x := (poly_x p)[n := poly_x p ! n @ [x]],
        poly_y := (poly_y p)[n := poly_y p ! n @ [y]],
        poly_count := (poly_count p)[n := poly_count p ! n + 1]\<rparr>)"

text \<open>
  The loop over the vertices of one shape. A vertex that arrives while \<open>num_poly\<close> is
  still -1 (a first shape with no parts) would be stored through a null pointer: that is
  the error \<open>MemoryFault\<close>.
\<close>

fun vertex_loop :: "shape \<Rightarrow> nat list \<Rightarrow> int \<Rightarrow> polys \<Rightarrow> error + polys" where
  "vertex_loop sh [] numParts p = Inr p"
| "vertex_loop sh (j # js) numParts p =
     (let ring = (numParts < nParts sh \<and> panPartStart sh ! nat numParts = int j);
          start_segment = ((j = 0 \<and> nParts sh > 0) \<or> ring);
          p1 = (if start_segment then start_segment_of p else p)
      in if num_poly p1 < 0 then Inl MemoryFault
         else vertex_loop sh js (if ring then numParts + 1 else numParts)
                (add_point (padfX sh ! j) (padfY sh ! j) p1))"

fun read_shapes :: "shape list \<Rightarrow> polys \<Rightarrow> error + polys" where
  "read_shapes [] p = Inr p"
| "read_shapes (sh # shs) p =
     (if nVertices sh \<ge> 2
      then (case vertex_loop sh [0..<nat (nVertices sh)] 1 p of
              Inl e \<Rightarrow> Inl e
            | Inr p1 \<Rightarrow> read_shapes shs p1)
      else read_shapes shs p)"

text \<open>All polygons of a shape file, with \<open>num_poly\<close> incremented after the last one.\<close>

definition load_polys :: "shape list \<Rightarrow> error + polys" where
  "load_polys shapes =
     (case read_shapes shapes no_polys of
        Inl e \<Rightarrow> Inl e
      | Inr p \<Rightarrow> Inr (p\<lparr>num_poly := num_poly p + 1\<rparr>))"

text \<open>
  The workers of one cell. The block and the completion flags come zeroed from calloc.
  The workers are run one after the other, in the order in which main starts them: each
  writes only the bytes of its own tile, so the order does not change the block.
\<close>

definition mask_params_of :: "int \<Rightarrow> polys \<Rightarrow> int \<Rightarrow> int \<Rightarrow> int \<Rightarrow> int \<Rightarrow> mask_params" where
  "mask_params_of resolution p lat lon num_threads pass =
     \<lparr>l_resolution = resolution, l_num_poly = num_poly p, l_poly_count = poly_count p,
      l_poly_y = poly_y p, l_poly_x = poly_x p,
      l_sw_lat = real_of_int lat, l_sw_lon = real_of_int lon,
      l_num_threads = num_threads, l_pass = pass\<rparr>"

definition compute_mask :: "world \<Rightarrow> int \<Rightarrow> int \<Rightarrow> polys \<Rightarrow> int \<Rightarrow> int \<Rightarrow> byte list \<times> byte list" where
  "compute_mask w resolution num_threads p lat lon =
     (let point_count = 3600 div resolution in
      fold (\<lambda>i. maskThread_run (inside_polygon2 w)
                  (mask_params_of resolution p lat lon num_threads (int i)))
           [0..<nat num_threads]
           (replicate (nat (point_count * point_count)) 0, replicate (nat num_threads) 0))"

text \<open>The size of the bit block and the copy of the byte block into it.\<close>

definition bit_block_size :: "int \<Rightarrow> int" where
  "bit_block_size point_count =
     (if (point_count * point_count) mod 8 \<noteq> 0
      then (point_count * point_count) div 8 + 1
      else (point_count * point_count) div 8)"

definition pack_block :: "byte list \<Rightarrow> int \<Rightarrow> byte list" where
  "pack_block block point_count =
     fold (\<lambda>pos bit_block.
             if block ! pos \<noteq> 0 then bit_pack bit_block pos 1 1 else bit_pack bit_block pos 1 0)
          [0..<nat (point_count * point_count)]
          (replicate (nat (bit_block_size point_count)) 0)"

text \<open>The room main gives the compressor: \<open>in_size + in_size * 0.10 + 100\<close>, truncated.\<close>

definition out_buf_size :: "int \<Rightarrow> nat" where
  "out_buf_size in_size = nat \<lfloor>real_of_int in_size + real_of_int in_size * 0.10 + 100\<rfloor>"

text \<open>
  The address and the size of the block go into the record of the cell, the record is
  written, then the block. \<open>block_address\<close> is a 32-bit signed integer in the source.
\<close>

definition store_block :: "int \<Rightarrow> byte list \<Rightarrow> state \<Rightarrow> state" where
  "store_block map_address out_buf s =
     (let s1 = st_fseek_end s;
          block_address = to_int32 (ftell (ofp s1));
          s2 = s1\<lparr>mapbuf := bit_pack (bit_pack (mapbuf s1) 0 32 block_address) 32 24
                              (to_int32 (int (length out_buf)))\<rparr>;
          s3 = write_mapbuf map_address s2;
          s4 = st_fwrite out_buf (st_fseek_set block_address s3)
      in s4\<lparr>total_blocks := to_int32 (total_blocks s4 + 1)\<rparr>)"

text \<open>A cell with a shape file (data set \<open>file_ext\<close>).\<close>

definition shape_cell :: "world \<Rightarrow> int \<Rightarrow> int \<Rightarrow> int \<Rightarrow> int \<Rightarrow> nat \<Rightarrow> state \<Rightarrow> error + state" where
  "shape_cell w resolution num_threads lat lon file_ext s =
     (case SHPOpen w (shpname_of lat lon file_ext) of
        None \<Rightarrow> Inl ShpOpenFailed
      | Some shapes \<Rightarrow>
          (case load_polys shapes of
             Inl e \<Rightarrow> Inl e
           | Inr p \<Rightarrow>
               let point_count = 3600 div resolution;
                   s1 = fold (\<lambda>i. st_event (MaskStart (int i))) [0..<nat num_threads] s;
                   block = fst (compute_mask w resolution num_threads p lat lon);
                   in_size = bit_block_size point_count;
                   bit_block = pack_block block point_count;
                   s2 = st_event (Compress (nat in_size)) s1;
                   (n, out_buf) = compress2 w (out_buf_size in_size) bit_block 9
               in if n \<noteq> 0 then Inl (CompressFailed n)
                  else Inr (store_block (map_address_of lat lon) out_buf s2)))"

definition process_cell :: "world \<Rightarrow> int \<Rightarrow> int \<Rightarrow> int \<times> int \<Rightarrow> state \<Rightarrow> error + state" where
  "process_cell w resolution num_threads c s =
     (case find_shp w (fst c) (snd c) of
        None \<Rightarrow> Inr (no_file_cell w (fst c) (snd c) s)
      | Some file_ext \<Rightarrow> shape_cell w resolution num_threads (fst c) (snd c) file_ext s)"

subsection \<open>main\<close>

fun run_cells :: "world \<Rightarrow> int \<Rightarrow> int \<Rightarrow> (int \<times> int) list \<Rightarrow> state \<Rightarrow> error + state" where
  "run_cells w resolution num_threads [] s = Inr s"
| "run_cells w resolution num_threads (c # cs) s =
     (case process_cell w resolution num_threads c s of
        Inl e \<Rightarrow> Inl e
      | Inr s1 \<Rightarrow> run_cells w resolution num_threads cs s1)"

definition main :: "world \<Rightarrow> string list \<Rightarrow> error + state" where
  "main w argv =
     (case check_args w argv of
        Inl e \<Rightarrow> Inl e
      | Inr (resolution, num_threads) \<Rightarrow>
          if \<not> ofile_opens w then Inl OutputOpenFailed
          else run_cells w resolution num_threads cells
                 (write_empty_map (write_header w resolution initial_state)))"

subsection \<open>Reading the directory\<close>

text \<open>
  The record of a cell as a reader of the file finds it: the seven bytes at the address of
  the cell, the 32-bit code and the 24-bit size.
\<close>

definition record_bytes :: "byte list \<Rightarrow> int \<times> int \<Rightarrow> byte list" where
  "record_bytes c cell = take 7 (drop (nat (map_address_of (fst cell) (snd cell))) c)"

definition record_code :: "byte list \<Rightarrow> int \<times> int \<Rightarrow> nat" where
  "record_code c cell = bit_unpack (record_bytes c cell) 0 32"

definition record_size :: "byte list \<Rightarrow> int \<times> int \<Rightarrow> nat" where
  "record_size c cell = bit_unpack (record_bytes c cell) 32 24"

text \<open>The tile of a worker as the list of the positions its loops visit, in their order.\<close>

definition tile_positions :: "int \<Rightarrow> int \<Rightarrow> int \<Rightarrow> (int \<times> int) list" where
  "tile_positions resolution num_threads pass =
     List.product [start_y_of resolution num_threads pass .. end_y_of resolution num_threads pass - 1]
                  [start_x_of resolution num_threads pass .. end_x_of resolution num_threads pass - 1]"

text \<open>The cells of the two loops of main.\<close>

definition valid_cell :: "int \<times> int \<Rightarrow> bool" where
  "valid_cell c \<longleftrightarrow> -90 \<le> fst c \<and> fst c \<le> 89 \<and> -180 \<le> snd c \<and> snd c \<le> 179"

text \<open>The first byte after the directory: the header and 64800 records of 7 bytes.\<close>

definition data_start :: nat where
  "data_start = 469984"

text \<open>
  An example of the outside: no shape file anywhere, an SRTM mask that is land everywhere.
\<close>

definition world_without_shapes :: world where
  "world_without_shapes =
     \<lparr>getenv_ABE_DATA = Some ''/data'', check_srtm_mask = (\<lambda>r. 0), ofile_opens = True,
      VERSION = ''swbd_mask'', zlibVersion = ''1.2.11'', asctime = ''Thu Oct 10 2013'' @ [CHR 0x0A],
      shp_exists = (\<lambda>n. False), SHPOpen = (\<lambda>n. None),
      read_srtm_mask_min_res = (\<lambda>slat slon r. 1),
      inside_polygon2 = (\<lambda>px py n x y. 0),
      deflate = (\<lambda>source level. (0, [1]))\<rparr>"

text \<open>An output file that holds the header and the empty directory and nothing else.\<close>

definition empty_map_state :: state where
  "empty_map_state =
     \<lparr>ofp = \<lparr>content = replicate 469984 0, fpos = 469984\<rparr>, mapbuf = replicate 7 0,
      total_blocks = 0, events = []\<rparr>"

text \<open>
  Names for what main computes for a cell with a shape file once its polygons \<open>p\<close> are
  read: the bit block, the result of the compressor (status and compressed bytes), the
  record built from the end of the file and the compressed length, and the state with the
  start of the workers and the call of the compressor logged.
\<close>

definition cell_bit_block :: "world \<Rightarrow> int \<Rightarrow> int \<Rightarrow> polys \<Rightarrow> int \<Rightarrow> int \<Rightarrow> byte list" where
  "cell_bit_block w resolution num_threads p lat lon =
     pack_block (fst (compute_mask w resolution num_threads p lat lon)) (3600 div resolution)"

definition cell_compress :: "world \<Rightarrow> int \<Rightarrow> int \<Rightarrow> polys \<Rightarrow> int \<Rightarrow> int \<Rightarrow> int \<times> byte list" where
  "cell_compress w resolution num_threads p lat lon =
     compress2 w (out_buf_size (bit_block_size (3600 div resolution)))
       (cell_bit_block w resolution num_threads p lat lon) 9"

definition cell_log :: "int \<Rightarrow> int \<Rightarrow> state \<Rightarrow> state" where
  "cell_log resolution num_threads s =
     st_event (Compress (nat (bit_block_size (3600 div resolution))))
       (fold (\<lambda>i. st_event (MaskStart (int i))) [0..<nat num_threads] s)"

definition block_record :: "byte list \<Rightarrow> nat \<Rightarrow> nat \<Rightarrow> byte list" where
  "block_record mb end_of_file out_size =
     bit_pack (bit_pack mb 0 32 (to_int32 (int end_of_file))) 32 24 (to_int32 (int out_size))"

text \<open>\<open>x\<close> occurs in the list and \<open>y\<close> occurs after its first occurrence.\<close>

definition precedes :: "'a \<Rightarrow> 'a \<Rightarrow> 'a list \<Rightarrow> bool" where
  "precedes x y xs \<longleftrightarrow> x \<in> set xs \<and> y \<in> set (tl (dropWhile (\<lambda>e. e \<noteq> x) xs))"

text \<open>
  An example of the outside: every cell has a shape file whose only shape is a single
  point, and the deflate run answers with one byte after the header of the stream.
\<close>

definition point_shape :: shape where
  "point_shape = \<lparr>nVertices = 1, nParts = 0, panPartStart = [], padfX = [0.5], padfY = [0.5]\<rparr>"

definition world_with_shapes :: world where
  "world_with_shapes =
     \<lparr>getenv_ABE_DATA = Some ''/data'', check_srtm_mask = (\<lambda>r. 0), ofile_opens = True,
      VERSION = ''swbd_mask'', zlibVersion = ''1.2.11'', asctime = ''Thu Oct 10 2013'' @ [CHR 0x0A],
      shp_exists = (\<lambda>n. True), SHPOpen = (\<lambda>n. Some [point_shape]),
      read_srtm_mask_min_res = (\<lambda>slat slon r. 1),
      inside_polygon2 = (\<lambda>px py n x y. 0),
      deflate = (\<lambda>source level. (0, [1]))\<rparr>"

text \<open>
  The directory invariant for the cells of a set: the record of a cell reads a code of 0,
  1 or 2, or its block (the bytes from its code, as many as its size) lies behind the
  directory and inside the file and does not meet the block of another cell of the set.
\<close>

definition blocks_apart :: "byte list \<Rightarrow> int \<times> int \<Rightarrow> int \<times> int \<Rightarrow> bool" where
  "blocks_apart f c d \<longleftrightarrow>
     record_code f c + record_size f c \<le> record_code f d \<or>
     record_code f d + record_size f d \<le> record_code f c"

definition directory_ok :: "(int \<times> int) set \<Rightarrow> byte list \<Rightarrow> bool" where
  "directory_ok D f \<longleftrightarrow>
     (\<forall>c\<in>D. record_code f c \<in> {0, 1, 2} \<or>
        (data_start \<le> record_code f c \<and> record_code f c + record_size f c \<le> length f \<and>
         (\<forall>d\<in>D. d \<noteq> c \<and> record_code f d \<notin> {0, 1, 2} \<longrightarrow> blocks_apart f c d)))"

text \<open>An output file of \<open>2\<^sup>3\<^sup>1\<close> bytes.\<close>

definition long_file_state :: state where
  "long_file_state =
     \<lparr>ofp = \<lparr>content = replicate 2147483648 0, fpos = 2147483648\<rparr>, mapbuf = replicate 7 0,
      total_blocks = 0, events = []\<rparr>"

text \<open>
  The writes of records in a log of main, each with its offset and its number of bytes:
  every write of the log except the write of a block, which is the second write after a
  call of the compressor.
\<close>

fun record_writes :: "event list \<Rightarrow> (nat \<times> nat) list" where
  "record_writes (Compress n # FWrite a k # FWrite b m # es) = (a, k) # record_writes es"
| "record_writes (FWrite a k # es) = (a, k) # record_writes es"
| "record_writes (e # es) = record_writes es"
| "record_writes [] = []"

text \<open>
  An example of the outside: as \<open>world_with_shapes\<close>, with a deflate run that reports
  Z\_MEM\_ERROR.
\<close>

definition world_deflate_fails :: world where
  "world_deflate_fails = world_with_shapes\<lparr>deflate := (\<lambda>source level. (-4, []))\<rparr>"

section \<open>Properties\<close>

lemma block_count_4: "block_count_of 4 = 2"
proof -
  have "sqrt 4 = 2" by simp
  then show ?thesis by (simp add: block_count_of_def NINT_def)
qed

lemma block_count_16: "block_count_of 16 = 4"
proof -
  have "sqrt 16 = 4" by (rule real_sqrt_unique) simp_all
  then show ?thesis by (simp add: block_count_of_def NINT_def)
qed

subsection \<open>Tiles\<close>

lemma band_div:
  fixes j m w :: int
  assumes "0 < w"
  shows "(m * w \<le> j \<and> j < m * w + w) \<longleftrightarrow> j div w = m"
proof
  assume a: "m * w \<le> j \<and> j < m * w + w"
  have "j = w * m + (j - m * w)" by (simp add: algebra_simps)
  moreover have "0 \<le> j - m * w" "j - m * w < w" using a by simp_all
  ultimately show "j div w = m" by (rule int_div_pos_eq)
next
  assume d: "j div w = m"
  have e: "j div w * w + j mod w = j" by (rule div_mult_mod_eq)
  have r: "0 \<le> j mod w" "j mod w < w" using assms by simp_all
  have "j div w * w \<le> j \<and> j < j div w * w + w" using e r by linarith
  then show "m * w \<le> j \<and> j < m * w + w" unfolding d .
qed

lemma div_band_less:
  fixes i w n :: int
  assumes "0 < w" "0 \<le> i" "i < n * w"
  shows "0 \<le> i div w \<and> i div w < n"
proof -
  have "(i div w) * w \<le> i" using band_div[OF assms(1), of "i div w" i] by simp
  then have "(i div w) * w < n * w" using assms(3) by linarith
  then have "i div w < n" using assms(1) by (simp add: mult_less_cancel_right)
  moreover have "0 \<le> i div w" using assms by (simp add: pos_imp_zdiv_nonneg_iff)
  ultimately show ?thesis by simp
qed

lemma tile_unique:
  fixes bc ppc i j :: int
  assumes "0 < bc" "0 < ppc" "0 \<le> i" "i < bc * ppc" "0 \<le> j" "j < bc * ppc"
  shows "\<exists>!p. 0 \<le> p \<and> p < bc * bc \<and> p div bc = i div ppc \<and> p mod bc = j div ppc"
proof -
  let ?a = "i div ppc" and ?b = "j div ppc"
  have a: "0 \<le> ?a" "?a < bc" using div_band_less[OF assms(2,3,4)] by simp_all
  have b: "0 \<le> ?b" "?b < bc" using div_band_less[OF assms(2,5,6)] by simp_all
  let ?p = "?a * bc + ?b"
  have d: "?p div bc = ?a" using b assms(1) by (simp add: div_pos_pos_trivial)
  have m: "?p mod bc = ?b" using b assms(1) by (simp add: mod_pos_pos_trivial)
  have "?a * bc \<le> (bc - 1) * bc" using a assms(1) by (simp add: mult_right_mono)
  then have u: "?p < bc * bc" using b by (simp add: algebra_simps)
  have l: "0 \<le> ?p" using a b assms(1) by simp
  show ?thesis
  proof (rule ex1I[of _ ?p])
    show "0 \<le> ?p \<and> ?p < bc * bc \<and> ?p div bc = ?a \<and> ?p mod bc = ?b"
      using d m u l by simp
  next
    fix p assume "0 \<le> p \<and> p < bc * bc \<and> p div bc = ?a \<and> p mod bc = ?b"
    then show "p = ?p" by (metis div_mult_mod_eq)
  qed
qed

lemma valid_grid:
  assumes "resolution \<in> {1, 3, 10, 30, 60}" "num_threads \<in> {4, 16}"
  shows "0 < block_count_of num_threads"
    and "0 < pass_point_count_of resolution num_threads"
    and "point_count_of resolution =
           block_count_of num_threads * pass_point_count_of resolution num_threads"
    and "block_count_of num_threads * block_count_of num_threads = num_threads"
  using assms
  by (auto simp: pass_point_count_of_def point_count_of_def block_count_4 block_count_16)

lemma in_tile_iff:
  assumes "resolution \<in> {1, 3, 10, 30, 60}" "num_threads \<in> {4, 16}"
  shows "in_tile resolution num_threads pass i j \<longleftrightarrow>
           pass div block_count_of num_threads = i div pass_point_count_of resolution num_threads \<and>
           pass mod block_count_of num_threads = j div pass_point_count_of resolution num_threads"
proof -
  let ?bc = "block_count_of num_threads" and ?w = "pass_point_count_of resolution num_threads"
  have w: "0 < ?w" by (rule valid_grid(2)[OF assms])
  have "in_tile resolution num_threads pass i j \<longleftrightarrow>
          ((pass div ?bc) * ?w \<le> i \<and> i < (pass div ?bc) * ?w + ?w) \<and>
          ((pass mod ?bc) * ?w \<le> j \<and> j < (pass mod ?bc) * ?w + ?w)"
    by (simp add: in_tile_def start_x_of_def start_y_of_def end_x_of_def end_y_of_def)
  also have "\<dots> \<longleftrightarrow> i div ?w = pass div ?bc \<and> j div ?w = pass mod ?bc"
    by (simp only: band_div[OF w])
  finally show ?thesis by auto
qed

lemma in_tile_inside:
  assumes v: "resolution \<in> {1, 3, 10, 30, 60}" "num_threads \<in> {4, 16}"
    and p: "0 \<le> pass" "pass < num_threads"
    and t: "in_tile resolution num_threads pass i j"
  shows "0 \<le> i \<and> i < point_count_of resolution \<and> 0 \<le> j \<and> j < point_count_of resolution"
proof -
  let ?bc = "block_count_of num_threads" and ?w = "pass_point_count_of resolution num_threads"
  note g = valid_grid[OF v]
  have d: "0 \<le> pass div ?bc" "pass div ?bc \<le> ?bc - 1"
    using div_band_less[OF g(1) p(1), of ?bc] p(2) g(4) by simp_all
  have m: "0 \<le> pass mod ?bc" "pass mod ?bc \<le> ?bc - 1" using g(1) by simp_all
  have y: "(pass div ?bc) * ?w \<le> i" "i < (pass div ?bc) * ?w + ?w"
    and x: "(pass mod ?bc) * ?w \<le> j" "j < (pass mod ?bc) * ?w + ?w"
    using t by (simp_all add: in_tile_def start_x_of_def start_y_of_def end_x_of_def end_y_of_def)
  have dl: "0 \<le> (pass div ?bc) * ?w" and ml: "0 \<le> (pass mod ?bc) * ?w"
    using d(1) m(1) g(2) by simp_all
  have du: "(pass div ?bc) * ?w \<le> (?bc - 1) * ?w" and mu: "(pass mod ?bc) * ?w \<le> (?bc - 1) * ?w"
    using d(2) m(2) g(2) by (simp_all add: mult_right_mono)
  have e: "(?bc - 1) * ?w + ?w = point_count_of resolution"
    using g(3) by (simp add: algebra_simps)
  show ?thesis using y x dl ml du mu e by linarith
qed

lemma tiles_cover:
  assumes "resolution \<in> {1, 3, 10, 30, 60}" and "num_threads \<in> {4, 16}"
    and a: "0 \<le> i" "i < point_count_of resolution" "0 \<le> j" "j < point_count_of resolution"
  shows "\<exists>!pass. 0 \<le> pass \<and> pass < num_threads \<and> in_tile resolution num_threads pass i j"
proof -
  note g = valid_grid[OF assms(1,2)]
  have "\<exists>!p. 0 \<le> p \<and> p < block_count_of num_threads * block_count_of num_threads \<and>
          p div block_count_of num_threads = i div pass_point_count_of resolution num_threads \<and>
          p mod block_count_of num_threads = j div pass_point_count_of resolution num_threads"
    using tile_unique[OF g(1) g(2), of i j] a g(3) by simp
  then show ?thesis
    by (simp add: in_tile_iff[OF assms(1,2)] g(4))
qed

text \<open>
  Claim C6. For a resolution of 1, 3, 10, 30 or 60 and 4 or 16 workers, the number of tiles
  per side squared is the worker count; the tile of worker \<open>pass\<close> is the rows from
  \<open>(pass div bc) * (point_count div bc)\<close> up to (not including)
  \<open>(pass div bc + 1) * (point_count div bc)\<close> and the columns from
  \<open>(pass mod bc) * (point_count div bc)\<close> up to (not including)
  \<open>(pass mod bc + 1) * (point_count div bc)\<close>, a square; every tile lies inside the
  grid, and every position of the grid is in the tile of exactly one worker.
\<close>

theorem tiles_partition:
  assumes "resolution \<in> {1, 3, 10, 30, 60}" and "num_threads \<in> {4, 16}"
  shows "block_count_of num_threads * block_count_of num_threads = num_threads \<and>
    (\<forall>pass i j. in_tile resolution num_threads pass i j \<longleftrightarrow>
       (pass div block_count_of num_threads) * (point_count_of resolution div block_count_of num_threads) \<le> i \<and>
       i < (pass div block_count_of num_threads + 1) * (point_count_of resolution div block_count_of num_threads) \<and>
       (pass mod block_count_of num_threads) * (point_count_of resolution div block_count_of num_threads) \<le> j \<and>
       j < (pass mod block_count_of num_threads + 1) * (point_count_of resolution div block_count_of num_threads)) \<and>
    (\<forall>pass i j. 0 \<le> pass \<and> pass < num_threads \<and> in_tile resolution num_threads pass i j \<longrightarrow>
       0 \<le> i \<and> i < point_count_of resolution \<and> 0 \<le> j \<and> j < point_count_of resolution) \<and>
    (\<forall>i j. 0 \<le> i \<and> i < point_count_of resolution \<and> 0 \<le> j \<and> j < point_count_of resolution \<longrightarrow>
       (\<exists>!pass. 0 \<le> pass \<and> pass < num_threads \<and> in_tile resolution num_threads pass i j))"
proof (intro conjI allI impI)
  show "block_count_of num_threads * block_count_of num_threads = num_threads"
    by (rule valid_grid(4)[OF assms])
next
  fix pass i j
  show "in_tile resolution num_threads pass i j \<longleftrightarrow>
       (pass div block_count_of num_threads) * (point_count_of resolution div block_count_of num_threads) \<le> i \<and>
       i < (pass div block_count_of num_threads + 1) * (point_count_of resolution div block_count_of num_threads) \<and>
       (pass mod block_count_of num_threads) * (point_count_of resolution div block_count_of num_threads) \<le> j \<and>
       j < (pass mod block_count_of num_threads + 1) * (point_count_of resolution div block_count_of num_threads)"
    by (simp add: in_tile_def start_x_of_def start_y_of_def end_x_of_def end_y_of_def
        pass_point_count_of_def algebra_simps)
next
  fix pass i j
  assume "0 \<le> pass \<and> pass < num_threads \<and> in_tile resolution num_threads pass i j"
  then have "0 \<le> i \<and> i < point_count_of resolution \<and> 0 \<le> j \<and> j < point_count_of resolution"
    using in_tile_inside[OF assms] by blast
  then show "0 \<le> i" "i < point_count_of resolution" "0 \<le> j" "j < point_count_of resolution"
    by simp_all
next
  fix i j
  assume "0 \<le> i \<and> i < point_count_of resolution \<and> 0 \<le> j \<and> j < point_count_of resolution"
  then show "\<exists>!pass. 0 \<le> pass \<and> pass < num_threads \<and> in_tile resolution num_threads pass i j"
    using tiles_cover[OF assms] by simp
qed

theorem tiles_partition_witness:
  "(60::int) \<in> {1, 3, 10, 30, 60} \<and> (4::int) \<in> {4, 16} \<and>
   block_count_of 4 * block_count_of 4 = 4 \<and>
   (\<exists>!pass. 0 \<le> pass \<and> pass < 4 \<and> in_tile 60 4 pass 45 10)"
proof -
  have v: "(60::int) \<in> {1, 3, 10, 30, 60}" "(4::int) \<in> {4, 16}" by simp_all
  have p: "(0::int) \<le> 45 \<and> (45::int) < point_count_of 60 \<and> (0::int) \<le> 10 \<and> (10::int) < point_count_of 60"
    by (simp add: point_count_of_def)
  note t = tiles_partition[OF v]
  from t have "block_count_of 4 * block_count_of 4 = 4" by (rule conjunct1)
  moreover from t p have "\<exists>!pass. 0 \<le> pass \<and> pass < 4 \<and> in_tile 60 4 pass 45 10" by blast
  ultimately show ?thesis using v by blast
qed

subsection \<open>The worker\<close>

lemma fold_update_length:
  "length (fold (\<lambda>t b. b[f t := g t]) ts b) = length b"
  by (induction ts arbitrary: b) simp_all

lemma fold_update_other:
  "k \<notin> f ` set ts \<Longrightarrow> fold (\<lambda>t b. b[f t := g t]) ts b ! k = b ! k"
  by (induction ts arbitrary: b) auto

lemma fold_update_hit:
  assumes "k < length b"
    and "\<forall>t\<in>set ts. f t = k \<longrightarrow> g t = v"
    and "b ! k = v \<or> k \<in> f ` set ts"
  shows "fold (\<lambda>t b. b[f t := g t]) ts b ! k = v"
  using assms
proof (induction ts arbitrary: b)
  case Nil
  then show ?case by simp
next
  case (Cons t ts)
  let ?b = "b[f t := g t]"
  have len: "k < length ?b" using Cons.prems(1) by simp
  have all: "\<forall>t\<in>set ts. f t = k \<longrightarrow> g t = v" using Cons.prems(2) by simp
  have "?b ! k = v \<or> k \<in> f ` set ts"
  proof (cases "f t = k")
    case True
    then have "g t = v" using Cons.prems(2) by simp
    then show ?thesis using True Cons.prems(1) by simp
  next
    case False
    then show ?thesis using Cons.prems(3) by auto
  qed
  then show ?case using Cons.IH[OF len all] by simp
qed

lemma fold_nested:
  "fold (\<lambda>i. fold (\<lambda>j. F i j) js) is b = fold (\<lambda>(i, j). F i j) (List.product is js) b"
proof (induction "is" arbitrary: b)
  case Nil
  then show ?case by simp
next
  case (Cons i "is")
  have "fold (\<lambda>(i, j). F i j) (map (Pair i) js) b = fold (\<lambda>j. F i j) js b"
    by (simp add: fold_map comp_def)
  then show ?case using Cons.IH by simp
qed

lemma fold_count:
  "fold (\<lambda>k c. if P k then c + 1 else c) ks (c0::int) = c0 + int (length (filter P ks))"
  by (induction ks arbitrary: c0) simp_all

lemma inside_count_of_filter:
  "inside_count_of inside a slon slat =
     int (length (filter (\<lambda>k. inside (l_poly_x a ! k) (l_poly_y a ! k) (l_poly_count a ! k) slon slat \<noteq> 0)
                         [0..<nat (l_num_poly a)]))"
  unfolding inside_count_of_def by (simp add: fold_count)

lemma grid_index_inj:
  fixes i j i' j' pc :: int
  assumes "0 \<le> j" "j < pc" "0 \<le> j'" "j' < pc" "i * pc + j = i' * pc + j'"
  shows "i = i' \<and> j = j'"
proof -
  have "(i * pc + j) div pc = i" using assms(1,2) by (intro int_div_pos_eq[of _ pc i j]) (simp_all add: mult.commute)
  moreover have "(i' * pc + j') div pc = i'" using assms(3,4) by (intro int_div_pos_eq[of _ pc i' j']) (simp_all add: mult.commute)
  ultimately have "i = i'" using assms(5) by simp
  then show ?thesis using assms(5) by simp
qed

lemma set_tile_positions:
  "(i, j) \<in> set (tile_positions resolution num_threads pass) \<longleftrightarrow> in_tile resolution num_threads pass i j"
  by (auto simp: tile_positions_def in_tile_def)

lemma run_block_fold:
  "run_block inside a block =
     fold (\<lambda>t b. b[nat (fst t * point_count_of (l_resolution a) + snd t) :=
                     sample_flag inside a (fst t) (snd t)])
          (tile_positions (l_resolution a) (l_num_threads a) (l_pass a)) block"
proof -
  have "(\<lambda>(i, j). set_sample inside a i j) =
        (\<lambda>t b. b[nat (fst t * point_count_of (l_resolution a) + snd t) :=
                     sample_flag inside a (fst t) (snd t)])"
    by (auto simp: set_sample_def fun_eq_iff)
  then show ?thesis
    unfolding run_block_def tile_positions_def fold_nested by simp
qed

lemma run_block_length: "length (run_block inside a block) = length block"
  unfolding run_block_fold by (rule fold_update_length)

lemma grid_index_bound:
  fixes i j pc :: int
  assumes "0 \<le> i" "i < pc" "0 \<le> j" "j < pc"
  shows "0 \<le> i * pc + j \<and> i * pc + j < pc * pc"
proof -
  have "i * pc \<le> (pc - 1) * pc" using assms by (intro mult_right_mono) simp_all
  then have "i * pc + j < pc * pc" using assms(4) by (simp add: algebra_simps)
  moreover have "0 \<le> i * pc" using assms by simp
  ultimately show ?thesis using assms(3) by simp
qed

lemma int_mod_2_odd: "(int n mod 2 \<noteq> 0) = odd n"
  by presburger

lemma sample_flag_parity:
  "sample_flag inside a i j =
     (if odd (length (filter
                 (\<lambda>k. inside (l_poly_x a ! k) (l_poly_y a ! k) (l_poly_count a ! k)
                         (bin_centre (l_sw_lon a) j (point_count_of (l_resolution a)))
                         (bin_centre (l_sw_lat a) i (point_count_of (l_resolution a))) \<noteq> 0)
                 [0..<nat (l_num_poly a)]))
      then NVFalse else NVTrue)"
  unfolding sample_flag_def Let_def inside_count_of_filter int_mod_2_odd ..

text \<open>
  Claim C1. For every position \<open>(i, j)\<close> of the tile of a worker, the count the worker
  computes is the number of polygons of the cell for which the point-in-polygon test says
  that the centre of the bin is inside, and the byte the worker leaves at
  \<open>i * point_count + j\<close> is \<open>NVFalse\<close> (water) when that number is odd and
  \<open>NVTrue\<close> (land) when it is even, zero included.
\<close>

theorem worker_sets_parity_flag:
  assumes v: "l_resolution a \<in> {1, 3, 10, 30, 60}" "l_num_threads a \<in> {4, 16}"
    and p: "0 \<le> l_pass a" "l_pass a < l_num_threads a"
    and len: "length block = nat (point_count_of (l_resolution a) * point_count_of (l_resolution a))"
    and t: "in_tile (l_resolution a) (l_num_threads a) (l_pass a) i j"
  shows "inside_count_of inside a (bin_centre (l_sw_lon a) j (point_count_of (l_resolution a)))
                                  (bin_centre (l_sw_lat a) i (point_count_of (l_resolution a))) =
           int (length (filter
                 (\<lambda>k. inside (l_poly_x a ! k) (l_poly_y a ! k) (l_poly_count a ! k)
                         (bin_centre (l_sw_lon a) j (point_count_of (l_resolution a)))
                         (bin_centre (l_sw_lat a) i (point_count_of (l_resolution a))) \<noteq> 0)
                 [0..<nat (l_num_poly a)])) \<and>
         fst (maskThread_run inside a (block, flags)) ! nat (i * point_count_of (l_resolution a) + j) =
           (if odd (length (filter
                 (\<lambda>k. inside (l_poly_x a ! k) (l_poly_y a ! k) (l_poly_count a ! k)
                         (bin_centre (l_sw_lon a) j (point_count_of (l_resolution a)))
                         (bin_centre (l_sw_lat a) i (point_count_of (l_resolution a))) \<noteq> 0)
                 [0..<nat (l_num_poly a)]))
            then NVFalse else NVTrue)"
proof -
  let ?pc = "point_count_of (l_resolution a)"
  let ?f = "\<lambda>t. nat (fst t * ?pc + snd t)"
  let ?g = "\<lambda>t. sample_flag inside a (fst t) (snd t)"
  let ?ts = "tile_positions (l_resolution a) (l_num_threads a) (l_pass a)"
  have ins: "0 \<le> i \<and> i < ?pc \<and> 0 \<le> j \<and> j < ?pc" by (rule in_tile_inside[OF v p t])
  have b: "0 \<le> i * ?pc + j \<and> i * ?pc + j < ?pc * ?pc"
    using grid_index_bound[of i ?pc j] ins by simp
  have k: "?f (i, j) < length block" using b len by simp
  have same: "\<forall>t\<in>set ?ts. ?f t = ?f (i, j) \<longrightarrow> ?g t = ?g (i, j)"
  proof (intro ballI impI)
    fix t assume t': "t \<in> set ?ts" and e: "?f t = ?f (i, j)"
    have "in_tile (l_resolution a) (l_num_threads a) (l_pass a) (fst t) (snd t)"
      using t' set_tile_positions[of "fst t" "snd t"] by simp
    then have ins': "0 \<le> fst t \<and> fst t < ?pc \<and> 0 \<le> snd t \<and> snd t < ?pc"
      by (rule in_tile_inside[OF v p])
    have "0 \<le> fst t * ?pc + snd t" using grid_index_bound[of "fst t" ?pc "snd t"] ins' by simp
    then have "fst t * ?pc + snd t = i * ?pc + j" using e b by (simp add: eq_nat_nat_iff)
    then have "fst t = i \<and> snd t = j"
      using grid_index_inj[of "snd t" ?pc j "fst t" i] ins ins' by simp
    then show "?g t = ?g (i, j)" by simp
  qed
  have "(i, j) \<in> set ?ts" using t by (simp add: set_tile_positions)
  then have mem: "?f (i, j) \<in> ?f ` set ?ts" by (rule imageI)
  have "fold (\<lambda>t b. b[?f t := ?g t]) ?ts block ! ?f (i, j) = ?g (i, j)"
    using k same mem by (intro fold_update_hit) simp_all
  then have "run_block inside a block ! ?f (i, j) = ?g (i, j)"
    by (simp only: run_block_fold)
  then have "fst (maskThread_run inside a (block, flags)) ! nat (i * ?pc + j) = sample_flag inside a i j"
    by (simp add: maskThread_run_def)
  then show ?thesis
    by (simp only: sample_flag_parity inside_count_of_filter simp_thms)
qed

theorem worker_sets_parity_flag_witness:
  "fst (maskThread_run (\<lambda>px py n x y. if x < 10.5 then 1 else 0)
          \<lparr>l_resolution = 60, l_num_poly = 1, l_poly_count = [4],
           l_poly_y = [[10, 10, 10.5, 10.5]], l_poly_x = [[10, 10.5, 10.5, 10]],
           l_sw_lat = 10, l_sw_lon = 10, l_num_threads = 4, l_pass = 0\<rparr>
          (replicate 3600 0, replicate 4 0)) ! 185 = NVFalse"
  using worker_sets_parity_flag[of
          "\<lparr>l_resolution = 60, l_num_poly = 1, l_poly_count = [4],
           l_poly_y = [[10, 10, 10.5, 10.5]], l_poly_x = [[10, 10.5, 10.5, 10]],
           l_sw_lat = 10, l_sw_lon = 10, l_num_threads = 4, l_pass = 0\<rparr>"
          "replicate 3600 0" 3 5 "\<lambda>px py n x y. if x < 10.5 then 1 else 0" "replicate 4 0"]
  by (simp add: point_count_of_def in_tile_def start_x_of_def start_y_of_def end_x_of_def
        end_y_of_def pass_point_count_of_def block_count_4 bin_centre_def)

subsection \<open>Packing bits\<close>

lemma length_put_bit: "length (put_bit buffer pos b) = length buffer"
  by (simp add: put_bit_def)

lemma get_put_bit_same:
  "pos div 8 < length buffer \<Longrightarrow> get_bit (put_bit buffer pos b) pos = b"
  by (simp add: get_bit_def put_bit_def bit_set_bit_iff bit_unset_bit_iff possible_bit_word)

lemma get_put_bit_other:
  assumes "q \<noteq> pos"
  shows "get_bit (put_bit buffer pos b) q = get_bit buffer q"
proof (cases "q div 8 = pos div 8")
  case True
  then have m: "q mod 8 \<noteq> pos mod 8" using assms by (metis div_mult_mod_eq)
  show ?thesis
  proof (cases "pos div 8 < length buffer")
    case l: True
    then show ?thesis using True m
      by (auto simp: get_bit_def put_bit_def bit_set_bit_iff bit_unset_bit_iff)
  next
    case False
    then show ?thesis by (simp add: get_bit_def put_bit_def list_update_beyond)
  qed
next
  case False
  then show ?thesis by (simp add: get_bit_def put_bit_def)
qed

lemma bit_pack_one: "bit_pack buffer pos 1 v = put_bit buffer pos (odd v)"
  by (simp add: One_nat_def)

lemma length_bit_pack: "length (bit_pack buffer start numbits v) = length buffer"
  by (induction numbits arbitrary: buffer start v) (simp_all add: length_put_bit)

lemma pack_loop:
  assumes "n \<le> 8 * length buffer"
  shows "length (fold (\<lambda>pos bb. if block ! pos \<noteq> 0 then bit_pack bb pos 1 1 else bit_pack bb pos 1 0)
                  [0..<n] buffer) = length buffer \<and>
         (\<forall>i<n. get_bit (fold (\<lambda>pos bb. if block ! pos \<noteq> 0 then bit_pack bb pos 1 1
                                           else bit_pack bb pos 1 0) [0..<n] buffer) i
                 = (block ! i \<noteq> (0::byte)))"
  using assms
proof (induction n)
  case 0
  then show ?case by simp
next
  case (Suc n)
  let ?F = "\<lambda>pos bb. if block ! pos \<noteq> 0 then bit_pack bb pos 1 1 else bit_pack bb pos 1 0"
  let ?b = "fold ?F [0..<n] buffer"
  have ih: "length ?b = length buffer" "\<forall>i<n. get_bit ?b i = (block ! i \<noteq> 0)"
    using Suc by simp_all
  have step: "fold ?F [0..<Suc n] buffer = put_bit ?b n (block ! n \<noteq> 0)"
    by (simp add: bit_pack_one)
  have inr: "n div 8 < length ?b" using Suc.prems ih(1) by simp
  show ?case
  proof (intro conjI allI impI)
    show "length (fold ?F [0..<Suc n] buffer) = length buffer"
      by (simp only: step length_put_bit ih(1))
  next
    fix i assume "i < Suc n"
    show "get_bit (fold ?F [0..<Suc n] buffer) i = (block ! i \<noteq> 0)"
    proof (cases "i = n")
      case True
      then show ?thesis by (simp only: step get_put_bit_same[OF inr])
    next
      case False
      then have "i < n" using \<open>i < Suc n\<close> by simp
      then show ?thesis using ih(2) by (simp only: step get_put_bit_other[OF False])
    qed
  qed
qed

lemma bit_block_size_ceiling:
  "bit_block_size pc = \<lceil>real_of_int (pc * pc) / 8\<rceil>"
proof -
  have "\<lceil>real_of_int (pc * pc) / 8\<rceil> = - (- (pc * pc) div 8)"
    using ceiling_divide_eq_div[of "pc * pc" 8] by simp
  also have "\<dots> = bit_block_size pc"
    unfolding bit_block_size_def by presburger
  finally show ?thesis by simp
qed

lemma bit_block_size_covers: "pc * pc \<le> 8 * bit_block_size pc"
  unfolding bit_block_size_def by presburger

lemma pack_block_general:
  assumes "0 \<le> pc"
  shows "length (pack_block block pc) = nat (bit_block_size pc)"
    and "i < nat (pc * pc) \<Longrightarrow> get_bit (pack_block block pc) i = (block ! i \<noteq> 0)"
proof -
  have "nat (pc * pc) \<le> 8 * length (replicate (nat (bit_block_size pc)) (0::byte))"
    using bit_block_size_covers[of pc] by simp
  note l = pack_loop[OF this, of block]
  show "length (pack_block block pc) = nat (bit_block_size pc)"
    unfolding pack_block_def using l by simp
  show "i < nat (pc * pc) \<Longrightarrow> get_bit (pack_block block pc) i = (block ! i \<noteq> 0)"
    unfolding pack_block_def using l by simp
qed

lemma point_count_valid:
  "resolution \<in> {1, 3, 10, 30, 60} \<Longrightarrow> point_count_of resolution \<in> {3600, 1200, 360, 120, 60}"
  by (auto simp: point_count_of_def)

text \<open>
  Claim C7. For a resolution of 1, 3, 10, 30 or 60 and a byte block of
  \<open>point_count * point_count\<close> flags, the packed block has
  \<open>\<lceil>point_count\<^sup>2 / 8\<rceil>\<close> bytes, and for every \<open>i\<close> below \<open>point_count\<^sup>2\<close> bit
  \<open>i mod 8\<close> of byte \<open>i div 8\<close> is set exactly when flag \<open>i\<close> of the block is not zero.
\<close>

theorem packed_bits_layout:
  assumes "resolution \<in> {1, 3, 10, 30, 60}"
    and "length block = nat (point_count_of resolution * point_count_of resolution)"
  shows "int (length (pack_block block (point_count_of resolution))) =
           \<lceil>real_of_int (point_count_of resolution * point_count_of resolution) / 8\<rceil> \<and>
         (\<forall>i < nat (point_count_of resolution * point_count_of resolution).
            bit (pack_block block (point_count_of resolution) ! (i div 8)) (i mod 8) \<longleftrightarrow>
            block ! i \<noteq> 0)"
proof -
  have pc: "0 \<le> point_count_of resolution" using point_count_valid[OF assms(1)] by auto
  have "0 \<le> bit_block_size (point_count_of resolution)"
    using bit_block_size_covers[of "point_count_of resolution"]
      zero_le_square[of "point_count_of resolution"] by linarith
  then have "int (length (pack_block block (point_count_of resolution))) =
        \<lceil>real_of_int (point_count_of resolution * point_count_of resolution) / 8\<rceil>"
    using pack_block_general(1)[OF pc, of block] by (simp add: bit_block_size_ceiling)
  moreover have "\<forall>i < nat (point_count_of resolution * point_count_of resolution).
            bit (pack_block block (point_count_of resolution) ! (i div 8)) (i mod 8) \<longleftrightarrow>
            block ! i \<noteq> 0"
    using pack_block_general(2)[OF pc, of _ block] by (simp add: get_bit_def)
  ultimately show ?thesis by simp
qed

theorem packed_bits_layout_witness:
  "length (pack_block (replicate 3600 NVTrue) (point_count_of 60)) = 450 \<and>
   bit (pack_block (replicate 3600 NVTrue) (point_count_of 60) ! 12) 4"
proof -
  have r: "(60::int) \<in> {1, 3, 10, 30, 60}" by simp
  have p: "point_count_of 60 = 60" by (simp add: point_count_of_def)
  have l: "length (replicate 3600 NVTrue) = nat (point_count_of 60 * point_count_of 60)"
    by (simp add: p)
  note t = packed_bits_layout[OF r l]
  have "int (length (pack_block (replicate 3600 NVTrue) (point_count_of 60))) = 450"
    using t by (simp add: p)
  moreover have "bit (pack_block (replicate 3600 NVTrue) (point_count_of 60) ! (100 div 8)) (100 mod 8)
      \<longleftrightarrow> replicate 3600 NVTrue ! 100 \<noteq> 0"
    using t[THEN conjunct2, rule_format, of 100] by (simp add: p)
  ultimately show ?thesis by (simp add: NVTrue_def)
qed

subsection \<open>Fields of a record\<close>

lemma get_bit_pack_outside:
  "q < start \<or> start + numbits \<le> q \<Longrightarrow>
   get_bit (bit_pack buffer start numbits v) q = get_bit buffer q"
proof (induction numbits arbitrary: buffer start v)
  case 0
  then show ?case by simp
next
  case (Suc n)
  have "q \<noteq> start" using Suc.prems by auto
  moreover have "q < Suc start \<or> Suc start + n \<le> q" using Suc.prems by auto
  ultimately show ?case using Suc.IH[of "Suc start"] by (simp add: get_put_bit_other)
qed

lemma bit_unpack_cong:
  "(\<And>q. start \<le> q \<Longrightarrow> q < start + numbits \<Longrightarrow> get_bit b1 q = get_bit b2 q) \<Longrightarrow>
   bit_unpack b1 start numbits = bit_unpack b2 start numbits"
proof (induction numbits arbitrary: start)
  case 0
  then show ?case by simp
next
  case (Suc n)
  have "get_bit b1 start = get_bit b2 start" using Suc.prems[of start] by simp
  moreover have "bit_unpack b1 (Suc start) n = bit_unpack b2 (Suc start) n"
    using Suc.prems by (intro Suc.IH) simp_all
  ultimately show ?case by simp
qed

lemma bit_unpack_pack_outside:
  "s + n \<le> start \<or> start + numbits \<le> s \<Longrightarrow>
   bit_unpack (bit_pack buffer start numbits v) s n = bit_unpack buffer s n"
proof (rule bit_unpack_cong)
  fix q assume "s + n \<le> start \<or> start + numbits \<le> s" "s \<le> q" "q < s + n"
  then have "q < start \<or> start + numbits \<le> q" by linarith
  then show "get_bit (bit_pack buffer start numbits v) q = get_bit buffer q"
    by (rule get_bit_pack_outside)
qed

lemma low_bits_step:
  fixes v :: int
  shows "nat (v mod 2 ^ Suc n) = (if odd v then 1 else 0) + 2 * nat ((v div 2) mod 2 ^ n)"
proof -
  have "v mod (2 * 2 ^ n) = 2 * ((v div 2) mod 2 ^ n) + v mod 2"
    by (rule zmod_zmult2_eq) simp
  moreover have "0 \<le> (v div 2) mod 2 ^ n" by simp
  moreover have "v mod 2 = (if odd v then 1 else 0)" by presburger
  ultimately show ?thesis by (simp add: nat_add_distrib nat_mult_distrib)
qed

lemma bit_unpack_pack_same:
  "start + numbits \<le> 8 * length buffer \<Longrightarrow>
   bit_unpack (bit_pack buffer start numbits v) start numbits = nat (v mod 2 ^ numbits)"
proof (induction numbits arbitrary: buffer start v)
  case 0
  then show ?case by simp
next
  case (Suc n)
  let ?b = "put_bit buffer start (odd v)"
  have inr: "start div 8 < length buffer" using Suc.prems by simp
  have "get_bit (bit_pack ?b (Suc start) n (v div 2)) start = get_bit ?b start"
    by (rule get_bit_pack_outside) simp
  then have first: "get_bit (bit_pack ?b (Suc start) n (v div 2)) start = odd v"
    by (simp add: get_put_bit_same[OF inr])
  have "Suc start + n \<le> 8 * length ?b" using Suc.prems by (simp add: length_put_bit)
  then have rest: "bit_unpack (bit_pack ?b (Suc start) n (v div 2)) (Suc start) n =
      nat ((v div 2) mod 2 ^ n)" by (rule Suc.IH)
  show ?case by (simp only: bit_pack.simps bit_unpack.simps first rest low_bits_step)
qed

lemma bit_unpack_zero:
  "(\<And>q. start \<le> q \<Longrightarrow> q < start + numbits \<Longrightarrow> \<not> get_bit buffer q) \<Longrightarrow>
   bit_unpack buffer start numbits = 0"
proof (induction numbits arbitrary: start)
  case 0
  then show ?case by simp
next
  case (Suc n)
  have "\<not> get_bit buffer start" using Suc.prems[of start] by simp
  moreover have "bit_unpack buffer (Suc start) n = 0" using Suc.prems by (intro Suc.IH) simp_all
  ultimately show ?case by simp
qed

lemma get_bit_zeros: "q div 8 < n \<Longrightarrow> \<not> get_bit (replicate n 0) q"
  by (simp add: get_bit_def)

text \<open>The record main builds for a cell with no shape file: its code and its size, read back.\<close>

lemma sentinel_record_fields:
  assumes "0 \<le> v" "v < 2 ^ 32"
  shows "bit_unpack (bit_pack (replicate 7 0) 0 32 v) 0 32 = nat v"
    and "bit_unpack (bit_pack (replicate 7 0) 0 32 v) 32 24 = 0"
proof -
  show "bit_unpack (bit_pack (replicate 7 0) 0 32 v) 0 32 = nat v"
    using bit_unpack_pack_same[of 0 32 "replicate 7 0" v] assms by simp
  have "bit_unpack (bit_pack (replicate 7 0) 0 32 v) 32 24 = bit_unpack (replicate 7 0) 32 24"
    by (rule bit_unpack_pack_outside) simp
  also have "\<dots> = 0"
    by (rule bit_unpack_zero) (simp add: get_bit_zeros)
  finally show "bit_unpack (bit_pack (replicate 7 0) 0 32 v) 32 24 = 0" .
qed

lemma zero_record_fields:
  "bit_unpack (replicate 7 0) 0 32 = 0" "bit_unpack (replicate 7 0) 32 24 = 0"
  by (rule bit_unpack_zero, simp add: get_bit_zeros)+

text \<open>The record main builds for a block: its code and its size, read back.\<close>

lemma block_record_fields:
  assumes "length mb = 7"
  shows "bit_unpack (bit_pack (bit_pack mb 0 32 a) 32 24 b) 0 32 = nat (a mod 2 ^ 32)"
    and "bit_unpack (bit_pack (bit_pack mb 0 32 a) 32 24 b) 32 24 = nat (b mod 2 ^ 24)"
proof -
  have "bit_unpack (bit_pack (bit_pack mb 0 32 a) 32 24 b) 0 32 = bit_unpack (bit_pack mb 0 32 a) 0 32"
    by (rule bit_unpack_pack_outside) simp
  also have "\<dots> = nat (a mod 2 ^ 32)"
    by (rule bit_unpack_pack_same) (simp add: assms)
  finally show "bit_unpack (bit_pack (bit_pack mb 0 32 a) 32 24 b) 0 32 = nat (a mod 2 ^ 32)" .
  show "bit_unpack (bit_pack (bit_pack mb 0 32 a) 32 24 b) 32 24 = nat (b mod 2 ^ 24)"
    by (rule bit_unpack_pack_same) (simp add: assms length_bit_pack)
qed

subsection \<open>The directory\<close>

lemma set_cells: "c \<in> set cells \<longleftrightarrow> valid_cell c"
proof -
  have "set cells = {-90 .. 89} \<times> {-180 .. 179}"
    unfolding cells_def by (simp only: set_product set_upto)
  then show ?thesis by (cases c) (simp add: valid_cell_def)
qed

lemma to_uint32_id: "0 \<le> v \<Longrightarrow> v < 2 ^ 32 \<Longrightarrow> to_uint32 v = v"
  by (simp add: to_uint32_def uint_word_of_int take_bit_eq_mod)

lemma to_int32_id: "0 \<le> v \<Longrightarrow> v < 2 ^ 31 \<Longrightarrow> to_int32 v = v"
  unfolding to_int32_def by (simp add: sint_sbintrunc' signed_take_bit_int_eq_self)

lemma map_address_valid:
  assumes "valid_cell c"
  shows "map_address_of (fst c) (snd c) = 16384 + ((fst c + 90) * 360 + (snd c + 180)) * 7"
    and "16384 \<le> map_address_of (fst c) (snd c)"
    and "map_address_of (fst c) (snd c) + 7 \<le> 469984"
proof -
  have b: "0 \<le> 16384 + ((fst c + 90) * 360 + (snd c + 180)) * 7"
      "16384 + ((fst c + 90) * 360 + (snd c + 180)) * 7 \<le> 469977"
    using assms by (simp_all add: valid_cell_def)
  then show e: "map_address_of (fst c) (snd c) = 16384 + ((fst c + 90) * 360 + (snd c + 180)) * 7"
    unfolding map_address_of_def SWBD_MASK_HEADER_SIZE_def by (intro to_uint32_id) simp_all
  show "16384 \<le> map_address_of (fst c) (snd c)" 
    unfolding e using assms by (simp add: valid_cell_def)
  show "map_address_of (fst c) (snd c) + 7 \<le> 469984" unfolding e using b by simp
qed

lemma slots_apart:
  fixes x y :: int
  shows "x \<noteq> y \<Longrightarrow> 16384 + x * 7 + 7 \<le> 16384 + y * 7 \<or> 16384 + y * 7 + 7 \<le> 16384 + x * 7"
  by arith

lemma map_address_apart:
  assumes "valid_cell c" "valid_cell d" "c \<noteq> d"
  shows "map_address_of (fst c) (snd c) + 7 \<le> map_address_of (fst d) (snd d) \<or>
         map_address_of (fst d) (snd d) + 7 \<le> map_address_of (fst c) (snd c)"
proof -
  have "(fst c + 90) * 360 + (snd c + 180) \<noteq> (fst d + 90) * 360 + (snd d + 180)"
  proof
    assume e: "(fst c + 90) * 360 + (snd c + 180) = (fst d + 90) * 360 + (snd d + 180)"
    have "fst c + 90 = fst d + 90 \<and> snd c + 180 = snd d + 180"
      using grid_index_inj[of "snd c + 180" 360 "snd d + 180" "fst c + 90" "fst d + 90"] assms(1,2) e
      by (simp add: valid_cell_def)
    then show False using assms(3) by (simp add: prod_eq_iff)
  qed
  then show ?thesis
    unfolding map_address_valid(1)[OF assms(1)] map_address_valid(1)[OF assms(2)]
    by (rule slots_apart)
qed

subsection \<open>Writes\<close>

lemma write_mapbuf_inside:
  assumes "0 \<le> a" "nat a + 7 \<le> length (content (ofp s))" "length (mapbuf s) = 7"
  shows "content (ofp (write_mapbuf a s)) =
           take (nat a) (content (ofp s)) @ mapbuf s @ drop (nat a + 7) (content (ofp s))"
    and "fpos (ofp (write_mapbuf a s)) = nat a + 7"
    and "events (write_mapbuf a s) = events s @ [FWrite (nat a) 7]"
    and "mapbuf (write_mapbuf a s) = mapbuf s"
    and "total_blocks (write_mapbuf a s) = total_blocks s"
    and "length (content (ofp (write_mapbuf a s))) = length (content (ofp s))"
proof -
  have ne: "mapbuf s \<noteq> []" using assms(3) by auto
  show "content (ofp (write_mapbuf a s)) =
           take (nat a) (content (ofp s)) @ mapbuf s @ drop (nat a + 7) (content (ofp s))"
    using assms ne by (simp add: write_mapbuf_def st_fwrite_def st_fseek_set_def fwrite_def fseek_set_def)
  then show "length (content (ofp (write_mapbuf a s))) = length (content (ofp s))"
    using assms by simp
  show "fpos (ofp (write_mapbuf a s)) = nat a + 7"
    using assms ne by (simp add: write_mapbuf_def st_fwrite_def st_fseek_set_def fwrite_def fseek_set_def)
  show "events (write_mapbuf a s) = events s @ [FWrite (nat a) 7]"
    using assms ne by (simp add: write_mapbuf_def st_fwrite_def st_fseek_set_def fwrite_def fseek_set_def)
  show "mapbuf (write_mapbuf a s) = mapbuf s"
    by (simp add: write_mapbuf_def st_fwrite_def st_fseek_set_def)
  show "total_blocks (write_mapbuf a s) = total_blocks s"
    by (simp add: write_mapbuf_def st_fwrite_def st_fseek_set_def)
qed

lemma record_bytes_written:
  assumes "valid_cell c" "nat (map_address_of (fst c) (snd c)) + 7 \<le> length f" "length mb = 7"
  shows "record_bytes (take (nat (map_address_of (fst c) (snd c))) f @ mb @
                       drop (nat (map_address_of (fst c) (snd c)) + 7) f @ rest) c = mb"
  using assms by (simp add: record_bytes_def)

lemma patch_nth:
  assumes "a + length mb \<le> length f" "k < a \<or> a + length mb \<le> k" "k < length f"
  shows "(take a f @ mb @ drop (a + length mb) f @ rest) ! k = f ! k"
proof (cases "k < a")
  case True
  then show ?thesis using assms(1) by (simp add: nth_append)
next
  case False
  then have ge: "a + length mb \<le> k" using assms(2) by simp
  have la: "length (take a f) = a" using assms(1) by simp
  have "(take a f @ mb @ drop (a + length mb) f @ rest) ! k =
        (mb @ drop (a + length mb) f @ rest) ! (k - a)"
    using ge la by (simp add: nth_append)
  also have "\<dots> = (drop (a + length mb) f @ rest) ! (k - a - length mb)"
  proof -
    have "\<not> k - a < length mb" using ge by linarith
    then show ?thesis by (simp only: nth_append if_False)
  qed
  also have "\<dots> = drop (a + length mb) f ! (k - a - length mb)"
  proof -
    have "k - a - length mb < length (drop (a + length mb) f)" using ge assms(3) by simp
    then show ?thesis by (simp only: nth_append if_True)
  qed
  also have "\<dots> = f ! (a + length mb + (k - a - length mb))"
    using assms(1) by (intro nth_drop) 
  also have "a + length mb + (k - a - length mb) = k" using ge by linarith
  finally show ?thesis .
qed

lemma patch_length:
  assumes "a + length mb \<le> length f"
  shows "length (take a f @ mb @ drop (a + length mb) f @ rest) = length f + length rest"
  using assms by simp

lemma patch_window:
  assumes "a + length mb \<le> length f" "b + n \<le> a \<or> a + length mb \<le> b" "b + n \<le> length f"
  shows "take n (drop b (take a f @ mb @ drop (a + length mb) f @ rest)) = take n (drop b f)"
proof -
  define g where "g = take a f @ mb @ drop (a + length mb) f @ rest"
  have lg: "length g = length f + length rest" unfolding g_def by (rule patch_length[OF assms(1)])
  have nth: "\<And>k. k < a \<or> a + length mb \<le> k \<Longrightarrow> k < length f \<Longrightarrow> g ! k = f ! k"
    unfolding g_def using patch_nth[OF assms(1)] by blast
  have "take n (drop b g) = take n (drop b f)"
  proof (rule nth_equalityI)
    show "length (take n (drop b g)) = length (take n (drop b f))"
      using assms(3) lg by simp
  next
    fix i assume "i < length (take n (drop b g))"
    then have i: "i < n" by simp
    have "b + i < a \<or> a + length mb \<le> b + i" using assms(2) i by linarith
    moreover have "b + i < length f" using assms(3) i by linarith
    ultimately have "g ! (b + i) = f ! (b + i)" by (rule nth)
    then show "take n (drop b g) ! i = take n (drop b f) ! i"
      using i assms(3) lg by simp
  qed
  then show ?thesis unfolding g_def .
qed

lemma record_bytes_kept:
  assumes "valid_cell c" "valid_cell d" "c \<noteq> d" "length mb = 7"
    and "nat (map_address_of (fst c) (snd c)) + 7 \<le> length f"
    and "nat (map_address_of (fst d) (snd d)) + 7 \<le> length f"
  shows "record_bytes (take (nat (map_address_of (fst c) (snd c))) f @ mb @
                       drop (nat (map_address_of (fst c) (snd c)) + 7) f @ rest) d =
         record_bytes f d"
proof -
  let ?a = "nat (map_address_of (fst c) (snd c))" and ?b = "nat (map_address_of (fst d) (snd d))"
  have pos: "0 \<le> map_address_of (fst c) (snd c)" "0 \<le> map_address_of (fst d) (snd d)"
    using map_address_valid(2)[OF assms(1)] map_address_valid(2)[OF assms(2)] by simp_all
  have ap: "?b + 7 \<le> ?a \<or> ?a + length mb \<le> ?b"
    using map_address_apart[OF assms(1,2,3)] pos assms(4) by linarith
  have "take 7 (drop ?b (take ?a f @ mb @ drop (?a + length mb) f @ rest)) = take 7 (drop ?b f)"
    using assms(4,5,6) ap by (intro patch_window) simp_all
  then show ?thesis by (simp add: record_bytes_def assms(4))
qed

subsection \<open>Cells with no shape file\<close>

lemma no_file_cell_outside_band:
  assumes "valid_cell (lat, lon)" "data_start \<le> length (content (ofp s))"
    and "lat < -57 \<or> lat > 59"
  shows "record_code (content (ofp (no_file_cell w lat lon s))) (lat, lon) = 0"
    and "record_size (content (ofp (no_file_cell w lat lon s))) (lat, lon) = 0"
    and "events (no_file_cell w lat lon s) = events s @ [FWrite (nat (map_address_of lat lon)) 7]"
proof -
  let ?a = "map_address_of lat lon"
  let ?s = "s\<lparr>mapbuf := replicate 7 0\<rparr>"
  have a: "0 \<le> ?a" "nat ?a + 7 \<le> length (content (ofp ?s))"
    using map_address_valid[OF assms(1)] assms(2) by (simp_all add: data_start_def)
  have e: "no_file_cell w lat lon s = write_mapbuf ?a ?s"
    using assms(3) by (simp add: no_file_cell_def)
  have c: "content (ofp (no_file_cell w lat lon s)) =
        take (nat ?a) (content (ofp s)) @ replicate 7 0 @ drop (nat ?a + 7) (content (ofp s)) @ []"
    unfolding e using write_mapbuf_inside(1)[OF a] by simp
  have "record_bytes (content (ofp (no_file_cell w lat lon s))) (lat, lon) = replicate 7 0"
    unfolding c using record_bytes_written[OF assms(1), of "content (ofp s)" "replicate 7 0" "[]"] a
    by simp
  then show "record_code (content (ofp (no_file_cell w lat lon s))) (lat, lon) = 0"
    and "record_size (content (ofp (no_file_cell w lat lon s))) (lat, lon) = 0"
    by (simp_all add: record_code_def record_size_def zero_record_fields)
  show "events (no_file_cell w lat lon s) = events s @ [FWrite (nat ?a) 7]"
    unfolding e using write_mapbuf_inside(3)[OF a] by simp
qed

lemma no_file_cell_inside_band:
  assumes "valid_cell (lat, lon)" "data_start \<le> length (content (ofp s))"
    and "\<not> (lat < -57 \<or> lat > 59)"
  shows "record_code (content (ofp (no_file_cell w lat lon s))) (lat, lon) =
           (if read_srtm_mask_min_res w (real_of_int lat + 0.5) (real_of_int lon + 0.5) 3 = 0
            then 2 else 1)"
    and "record_size (content (ofp (no_file_cell w lat lon s))) (lat, lon) = 0"
    and "events (no_file_cell w lat lon s) =
           events s @ [SrtmRead (real_of_int lat + 0.5) (real_of_int lon + 0.5),
                       FWrite (nat (map_address_of lat lon)) 7]"
proof -
  let ?a = "map_address_of lat lon"
  let ?v = "if read_srtm_mask_min_res w (real_of_int lat + 0.5) (real_of_int lon + 0.5) 3 = 0
            then 2 else (1::int)"
  let ?mb = "bit_pack (replicate 7 0) 0 32 ?v"
  let ?s = "(st_event (SrtmRead (real_of_int lat + 0.5) (real_of_int lon + 0.5)) s)\<lparr>mapbuf := ?mb\<rparr>"
  have lm: "length ?mb = 7" by (simp add: length_bit_pack)
  have a: "0 \<le> ?a" "nat ?a + 7 \<le> length (content (ofp ?s))" "length (mapbuf ?s) = 7"
    using map_address_valid[OF assms(1)] assms(2) lm by (simp_all add: data_start_def st_event_def)
  have e: "no_file_cell w lat lon s = write_mapbuf ?a ?s"
    using assms(3) by (simp add: no_file_cell_def Let_def)
  have c: "content (ofp (no_file_cell w lat lon s)) =
        take (nat ?a) (content (ofp s)) @ ?mb @ drop (nat ?a + 7) (content (ofp s)) @ []"
    unfolding e using write_mapbuf_inside(1)[OF a] by (simp add: st_event_def)
  have rb: "record_bytes (content (ofp (no_file_cell w lat lon s))) (lat, lon) = ?mb"
    unfolding c using record_bytes_written[OF assms(1), of "content (ofp s)" ?mb "[]"] a lm
    by (simp add: st_event_def)
  have v: "0 \<le> ?v" "?v < 2 ^ 32" by simp_all
  show "record_code (content (ofp (no_file_cell w lat lon s))) (lat, lon) =
           (if read_srtm_mask_min_res w (real_of_int lat + 0.5) (real_of_int lon + 0.5) 3 = 0
            then 2 else 1)"
    unfolding record_code_def rb sentinel_record_fields(1)[OF v] by simp
  show "record_size (content (ofp (no_file_cell w lat lon s))) (lat, lon) = 0"
    unfolding record_size_def rb by (rule sentinel_record_fields(2)[OF v])
  show "events (no_file_cell w lat lon s) =
           events s @ [SrtmRead (real_of_int lat + 0.5) (real_of_int lon + 0.5), FWrite (nat ?a) 7]"
    unfolding e using write_mapbuf_inside(3)[OF a] by (simp add: st_event_def)
qed

text \<open>
  Claim C2. For a cell with no shape file (none of the six data sets opens), in an output
  file that holds the header and the directory: the cell is processed without an error;
  when its latitude is below -57 or above 59 its record reads code 0 and size 0, and the
  only thing done is the write of the 7 bytes of the record; otherwise the SRTM mask is
  queried once, at \<open>(lat + 0.5, lon + 0.5)\<close>, and the record reads code 2 when the answer
  is 0 (water) and code 1 otherwise (land), with size 0, and nothing is done but that query
  and the write of the record (no worker is started, the compressor is not called).
\<close>

theorem cell_without_shape_file:
  assumes "valid_cell (lat, lon)"
    and "find_shp w lat lon = None"
    and "data_start \<le> length (content (ofp s))"
  shows "process_cell w resolution num_threads (lat, lon) s = Inr (no_file_cell w lat lon s) \<and>
         record_size (content (ofp (no_file_cell w lat lon s))) (lat, lon) = 0 \<and>
         (if lat < -57 \<or> lat > 59
          then record_code (content (ofp (no_file_cell w lat lon s))) (lat, lon) = 0 \<and>
               events (no_file_cell w lat lon s) =
                 events s @ [FWrite (nat (16384 + ((lat + 90) * 360 + (lon + 180)) * 7)) 7]
          else record_code (content (ofp (no_file_cell w lat lon s))) (lat, lon) =
                 (if read_srtm_mask_min_res w (real_of_int lat + 0.5) (real_of_int lon + 0.5) 3 = 0
                  then 2 else 1) \<and>
               events (no_file_cell w lat lon s) =
                 events s @ [SrtmRead (real_of_int lat + 0.5) (real_of_int lon + 0.5),
                             FWrite (nat (16384 + ((lat + 90) * 360 + (lon + 180)) * 7)) 7])"
proof -
  have p: "process_cell w resolution num_threads (lat, lon) s = Inr (no_file_cell w lat lon s)"
    using assms(2) by (simp add: process_cell_def)
  have m: "map_address_of lat lon = 16384 + ((lat + 90) * 360 + (lon + 180)) * 7"
    using map_address_valid(1)[OF assms(1)] by simp
  show ?thesis
  proof (cases "lat < -57 \<or> lat > 59")
    case True
    show ?thesis
      using p True no_file_cell_outside_band[OF assms(1,3) True, of w] by (simp add: m)
  next
    case False
    show ?thesis
      using p False no_file_cell_inside_band[OF assms(1,3) False, of w] by (simp add: m)
  qed
qed

lemma find_shp_without_shapes: "find_shp world_without_shapes lat lon = None"
  by (simp add: find_shp_def world_without_shapes_def find_None_iff)

theorem cell_without_shape_file_witness:
  "record_code (content (ofp (no_file_cell world_without_shapes 0 0 empty_map_state))) (0, 0) = 1 \<and>
   record_size (content (ofp (no_file_cell world_without_shapes 0 0 empty_map_state))) (0, 0) = 0 \<and>
   events (no_file_cell world_without_shapes 0 0 empty_map_state) =
     [SrtmRead 0.5 0.5, FWrite 244444 7] \<and>
   record_code (content (ofp (no_file_cell world_without_shapes (-60) 0 empty_map_state))) (-60, 0) = 0 \<and>
   events (no_file_cell world_without_shapes (-60) 0 empty_map_state) = [FWrite 93244 7]"
proof -
  have d: "data_start \<le> length (content (ofp empty_map_state))"
    by (simp add: data_start_def empty_map_state_def)
  have v: "valid_cell (0, 0)" "valid_cell (-60, 0)" by (simp_all add: valid_cell_def)
  note a = cell_without_shape_file[OF v(1) find_shp_without_shapes d, of 60 4]
  note b = cell_without_shape_file[OF v(2) find_shp_without_shapes d, of 60 4]
  have e: "events empty_map_state = []" by (simp add: empty_map_state_def)
  have r: "\<And>x y z. read_srtm_mask_min_res world_without_shapes x y z = 1"
    by (simp add: world_without_shapes_def)
  show ?thesis using a b by (simp add: e r)
qed

subsection \<open>The command line\<close>

lemma vertex_loop_error: "vertex_loop sh js numParts p = Inl e \<Longrightarrow> e = MemoryFault"
  by (induction js arbitrary: numParts p) (auto simp: Let_def split: if_splits)

lemma read_shapes_error: "read_shapes shs p = Inl e \<Longrightarrow> e = MemoryFault"
  by (induction shs arbitrary: p) (auto split: if_splits sum.splits dest: vertex_loop_error)

lemma process_cell_error:
  "process_cell w resolution num_threads c s = Inl e \<Longrightarrow>
   e = ShpOpenFailed \<or> e = MemoryFault \<or> (\<exists>n. e = CompressFailed n)"
  by (auto simp: process_cell_def shape_cell_def load_polys_def Let_def
           split: option.splits sum.splits prod.splits if_splits dest: read_shapes_error)

lemma run_cells_error:
  "run_cells w resolution num_threads cs s = Inl e \<Longrightarrow>
   e = ShpOpenFailed \<or> e = MemoryFault \<or> (\<exists>n. e = CompressFailed n)"
  by (induction cs arbitrary: s) (auto split: sum.splits dest: process_cell_error)

text \<open>
  Claim C9. When main is called with the resolution as its only argument, the worker
  count is 4 and the check of the worker count does not fail: neither the checks before
  the output file is opened nor main as a whole end in the usage error of a bad worker
  count.
\<close>

theorem default_worker_count:
  assumes "length argv = 2"
  shows "num_threads_arg argv = 4 \<and>
         check_args w argv \<noteq> Inl (Usage BadThreadCount) \<and>
         main w argv \<noteq> Inl (Usage BadThreadCount)"
proof -
  have n: "num_threads_arg argv = 4" using assms by (simp add: num_threads_arg_def)
  have c: "check_args w argv \<noteq> Inl (Usage BadThreadCount)"
    by (simp add: check_args_def n Let_def)
  have "main w argv \<noteq> Inl (Usage BadThreadCount)"
  proof
    assume m: "main w argv = Inl (Usage BadThreadCount)"
    show False
    proof (cases "check_args w argv")
      case (Inl e)
      then show False using m c by (simp add: main_def)
    next
      case (Inr rn)
      then show False using m run_cells_error[of w "fst rn" "snd rn"]
        by (cases rn) (auto simp: main_def split: if_splits)
    qed
  qed
  then show ?thesis using n c by simp
qed

theorem default_worker_count_witness:
  "num_threads_arg [''swbd_mask'', ''60''] = 4 \<and>
   check_args world_without_shapes [''swbd_mask'', ''60''] = Inr (60, 4)"
proof -
  have l: "length [''swbd_mask'', ''60''] = 2" by simp
  note t = default_worker_count[OF l, of world_without_shapes]
  have r: "resolution_arg [''swbd_mask'', ''60''] = 60"
    by (simp add: resolution_arg_def sscanf_d_def scan_unsigned_def is_space_def is_digit_def
        digits_value_def strtol_range_def to_int32_id)
  have "check_args world_without_shapes [''swbd_mask'', ''60''] = Inr (60, 4)"
    using t by (simp add: check_args_def r world_without_shapes_def)
  then show ?thesis using t by simp
qed

subsection \<open>Cells with a shape file\<close>

lemma fold_st_event:
  "ofp (fold (\<lambda>i. st_event (f i)) xs s) = ofp s \<and>
   mapbuf (fold (\<lambda>i. st_event (f i)) xs s) = mapbuf s \<and>
   total_blocks (fold (\<lambda>i. st_event (f i)) xs s) = total_blocks s \<and>
   events (fold (\<lambda>i. st_event (f i)) xs s) = events s @ map f xs"
  by (induction xs arbitrary: s) (simp_all add: st_event_def)

lemma cell_log_fields:
  "ofp (cell_log resolution num_threads s) = ofp s"
  "mapbuf (cell_log resolution num_threads s) = mapbuf s"
  "total_blocks (cell_log resolution num_threads s) = total_blocks s"
  "events (cell_log resolution num_threads s) =
     events s @ map (\<lambda>i. MaskStart (int i)) [0..<nat num_threads] @
     [Compress (nat (bit_block_size (3600 div resolution)))]"
  unfolding cell_log_def by (simp_all add: st_event_def fold_st_event)

lemma shape_cell_unfold:
  assumes "SHPOpen w (shpname_of lat lon file_ext) = Some shapes" "load_polys shapes = Inr p"
  shows "shape_cell w resolution num_threads lat lon file_ext s =
           (if fst (cell_compress w resolution num_threads p lat lon) \<noteq> 0
            then Inl (CompressFailed (fst (cell_compress w resolution num_threads p lat lon)))
            else Inr (store_block (map_address_of lat lon)
                        (snd (cell_compress w resolution num_threads p lat lon))
                        (cell_log resolution num_threads s)))"
  using assms
  by (simp add: shape_cell_def cell_compress_def cell_bit_block_def cell_log_def Let_def
           split: prod.splits)

lemma length_block_record: "length (block_record mb e n) = length mb"
  by (simp add: block_record_def length_bit_pack)

lemma st_fseek_end_fields:
  "content (ofp (st_fseek_end s)) = content (ofp s)"
  "fpos (ofp (st_fseek_end s)) = length (content (ofp s))"
  "mapbuf (st_fseek_end s) = mapbuf s"
  "events (st_fseek_end s) = events s"
  "total_blocks (st_fseek_end s) = total_blocks s"
  by (simp_all add: st_fseek_end_def fseek_end_def)

text \<open>The writes of \<open>store_block\<close> while the end of the file fits a signed 32-bit integer.\<close>

lemma store_block_effect:
  assumes a: "0 \<le> a" "nat a + 7 \<le> length (content (ofp s))"
    and m: "length (mapbuf s) = 7"
    and l: "length (content (ofp s)) < 2 ^ 31"
  shows "content (ofp (store_block a out s)) =
           take (nat a) (content (ofp s)) @
           block_record (mapbuf s) (length (content (ofp s))) (length out) @
           drop (nat a + 7) (content (ofp s)) @ out"
    and "events (store_block a out s) =
           events s @ [FWrite (nat a) 7, FWrite (length (content (ofp s))) (length out)]"
    and "mapbuf (store_block a out s) =
           block_record (mapbuf s) (length (content (ofp s))) (length out)"
proof -
  let ?L = "length (content (ofp s))"
  let ?mb = "block_record (mapbuf s) ?L (length out)"
  let ?s2 = "(st_fseek_end s)\<lparr>mapbuf := ?mb\<rparr>"
  let ?s3 = "write_mapbuf a ?s2"
  have ba: "to_int32 (int ?L) = int ?L" using l by (intro to_int32_id) simp_all
  have c2: "content (ofp ?s2) = content (ofp s)" "mapbuf ?s2 = ?mb" "events ?s2 = events s"
    by (simp_all add: st_fseek_end_fields)
  have pre: "0 \<le> a" "nat a + 7 \<le> length (content (ofp ?s2))" "length (mapbuf ?s2) = 7"
    using a m by (simp_all add: st_fseek_end_fields length_block_record)
  note w = write_mapbuf_inside[OF pre]
  have c3: "content (ofp ?s3) = take (nat a) (content (ofp s)) @ ?mb @ drop (nat a + 7) (content (ofp s))"
    using w(1) by (simp add: st_fseek_end_fields)
  have l3: "length (content (ofp ?s3)) = ?L" using w(6) by (simp add: st_fseek_end_fields)
  have e3: "events ?s3 = events s @ [FWrite (nat a) 7]" using w(3) by (simp add: st_fseek_end_fields)
  have m3: "mapbuf ?s3 = ?mb" using w(4) by (simp add: st_fseek_end_fields)
  have sb: "store_block a out s =
      (st_fwrite out (st_fseek_set (int ?L) ?s3))
        \<lparr>total_blocks := to_int32 (total_blocks (st_fwrite out (st_fseek_set (int ?L) ?s3)) + 1)\<rparr>"
    by (simp add: store_block_def Let_def block_record_def ftell_def st_fseek_end_fields ba)
  have c4: "content (ofp (st_fwrite out (st_fseek_set (int ?L) ?s3))) = content (ofp ?s3) @ out"
    using l3 by (simp add: st_fwrite_def st_fseek_set_def fseek_set_def fwrite_def)
  show "content (ofp (store_block a out s)) =
           take (nat a) (content (ofp s)) @ ?mb @ drop (nat a + 7) (content (ofp s)) @ out"
  proof -
    have "content (ofp (store_block a out s)) =
          content (ofp (st_fwrite out (st_fseek_set (int ?L) ?s3)))"
      by (subst sb) simp
    then show ?thesis by (simp only: c4 c3 append_assoc)
  qed
  show "events (store_block a out s) = events s @ [FWrite (nat a) 7, FWrite ?L (length out)]"
    by (subst sb) (simp add: e3 st_fwrite_def st_fseek_set_def fseek_set_def l3 w(2))
  show "mapbuf (store_block a out s) = ?mb"
    by (subst sb) (simp add: m3 st_fwrite_def st_fseek_set_def)
qed

subsection \<open>The block of a cell\<close>

lemma fst_fold_maskThread_run:
  "fst (fold (\<lambda>i. maskThread_run inside (A i)) ps st) = fold (\<lambda>i. run_block inside (A i)) ps (fst st)"
  by (induction ps arbitrary: st) (simp_all add: maskThread_run_def)

lemma sample_flag_pass:
  "sample_flag inside (mask_params_of resolution p lat lon num_threads pass) i j =
   sample_flag inside (mask_params_of resolution p lat lon num_threads 0) i j"
  by (simp add: sample_flag_def inside_count_of_def mask_params_of_def)

lemma mask_params_of_fields:
  "l_resolution (mask_params_of resolution p lat lon num_threads pass) = resolution"
  "l_num_threads (mask_params_of resolution p lat lon num_threads pass) = num_threads"
  "l_pass (mask_params_of resolution p lat lon num_threads pass) = pass"
  "l_num_poly (mask_params_of resolution p lat lon num_threads pass) = num_poly p"
  by (simp_all add: mask_params_of_def)

lemma fold_fold_concat:
  "fold (\<lambda>i. fold U (ts i)) ps b = fold U (concat (map ts ps)) b"
  by (induction ps arbitrary: b) simp_all

lemma compute_mask_fold:
  "fst (compute_mask w resolution num_threads p lat lon) =
     fold (\<lambda>t b. b[nat (fst t * point_count_of resolution + snd t) :=
                     sample_flag (inside_polygon2 w)
                       (mask_params_of resolution p lat lon num_threads 0) (fst t) (snd t)])
          (concat (map (\<lambda>i. tile_positions resolution num_threads (int i)) [0..<nat num_threads]))
          (replicate (nat (point_count_of resolution * point_count_of resolution)) 0)"
proof -
  let ?U = "\<lambda>t b. b[nat (fst t * point_count_of resolution + snd t) :=
                     sample_flag (inside_polygon2 w)
                       (mask_params_of resolution p lat lon num_threads 0) (fst t) (snd t)]"
  have r: "\<And>i. run_block (inside_polygon2 w) (mask_params_of resolution p lat lon num_threads (int i)) =
        fold ?U (tile_positions resolution num_threads (int i))"
    by (rule ext) (simp add: run_block_fold mask_params_of_fields sample_flag_pass[of _ _ _ _ _ _ "int _"])
  show ?thesis
    unfolding compute_mask_def Let_def fst_fold_maskThread_run
    by (simp add: r fold_fold_concat point_count_of_def)
qed

lemma compute_mask_length:
  "length (fst (compute_mask w resolution num_threads p lat lon)) =
     nat (point_count_of resolution * point_count_of resolution)"
  unfolding compute_mask_fold by (simp add: fold_update_length)

lemma compute_mask_grid:
  assumes v: "resolution \<in> {1, 3, 10, 30, 60}" "num_threads \<in> {4, 16}"
    and ij: "0 \<le> i" "i < point_count_of resolution" "0 \<le> j" "j < point_count_of resolution"
  shows "fst (compute_mask w resolution num_threads p lat lon) ! nat (i * point_count_of resolution + j) =
           sample_flag (inside_polygon2 w) (mask_params_of resolution p lat lon num_threads 0) i j"
proof -
  let ?pc = "point_count_of resolution"
  let ?f = "\<lambda>t. nat (fst t * ?pc + snd t)"
  let ?g = "\<lambda>t. sample_flag (inside_polygon2 w) (mask_params_of resolution p lat lon num_threads 0)
                    (fst t) (snd t)"
  let ?ts = "concat (map (\<lambda>i. tile_positions resolution num_threads (int i)) [0..<nat num_threads])"
  let ?b = "replicate (nat (?pc * ?pc)) (0::byte)"
  have mem_ts: "\<And>t. t \<in> set ?ts \<Longrightarrow>
      \<exists>pass. 0 \<le> pass \<and> pass < num_threads \<and> in_tile resolution num_threads pass (fst t) (snd t)"
  proof -
    fix t assume "t \<in> set ?ts"
    then obtain n where n: "n < nat num_threads" "t \<in> set (tile_positions resolution num_threads (int n))"
      by auto
    have "in_tile resolution num_threads (int n) (fst t) (snd t)"
      using n(2) set_tile_positions[of "fst t" "snd t"] by simp
    moreover have "0 \<le> int n" "int n < num_threads" using n(1) by simp_all
    ultimately show "\<exists>pass. 0 \<le> pass \<and> pass < num_threads \<and>
        in_tile resolution num_threads pass (fst t) (snd t)" by blast
  qed
  have b: "0 \<le> i * ?pc + j \<and> i * ?pc + j < ?pc * ?pc"
    using grid_index_bound[of i ?pc j] ij by simp
  have k: "?f (i, j) < length ?b" using b by simp
  have same: "\<forall>t\<in>set ?ts. ?f t = ?f (i, j) \<longrightarrow> ?g t = ?g (i, j)"
  proof (intro ballI impI)
    fix t assume t': "t \<in> set ?ts" and e: "?f t = ?f (i, j)"
    obtain pass where ps: "0 \<le> pass" "pass < num_threads"
        "in_tile resolution num_threads pass (fst t) (snd t)"
      using mem_ts[OF t'] by blast
    have ins': "0 \<le> fst t \<and> fst t < ?pc \<and> 0 \<le> snd t \<and> snd t < ?pc"
      by (rule in_tile_inside[OF v ps])
    have "0 \<le> fst t * ?pc + snd t" using grid_index_bound[of "fst t" ?pc "snd t"] ins' by simp
    then have "fst t * ?pc + snd t = i * ?pc + j" using e b by (simp add: eq_nat_nat_iff)
    then have "fst t = i \<and> snd t = j"
      using grid_index_inj[of "snd t" ?pc j "fst t" i] ij ins' by simp
    then show "?g t = ?g (i, j)" by simp
  qed
  have "\<exists>!pass. 0 \<le> pass \<and> pass < num_threads \<and> in_tile resolution num_threads pass i j"
    using tiles_cover[OF v] ij by simp
  then obtain pass where ps: "0 \<le> pass" "pass < num_threads" "in_tile resolution num_threads pass i j"
    by blast
  have np: "nat pass < nat num_threads" "int (nat pass) = pass" using ps by simp_all
  have "(i, j) \<in> set (tile_positions resolution num_threads (int (nat pass)))"
    using ps(3) np(2) by (simp add: set_tile_positions)
  moreover have "nat pass \<in> set [0..<nat num_threads]" using np(1) by simp
  ultimately have "(i, j) \<in> set ?ts" unfolding set_concat set_map by blast
  then have mem: "?f (i, j) \<in> ?f ` set ?ts" by (rule imageI)
  have "fold (\<lambda>t b. b[?f t := ?g t]) ?ts ?b ! ?f (i, j) = ?g (i, j)"
    using k same mem by (intro fold_update_hit) simp_all
  then show ?thesis by (simp only: compute_mask_fold fst_conv snd_conv)
qed

subsection \<open>The record and the block of a cell with a shape file\<close>

lemma to_int32_low_bits:
  assumes "k \<le> 32"
  shows "to_int32 v mod 2 ^ k = v mod 2 ^ k"
proof -
  have "take_bit k (signed_take_bit 31 v) = take_bit k v"
    using assms by (intro take_bit_signed_take_bit) simp
  then show ?thesis by (simp add: to_int32_def sint_sbintrunc' take_bit_eq_mod)
qed

lemma block_record_code:
  assumes "length mb = 7" "e < 2 ^ 31"
  shows "bit_unpack (block_record mb e n) 0 32 = e"
proof -
  have "to_int32 (int e) = int e" using assms(2) by (intro to_int32_id) simp_all
  moreover have "int e mod 2 ^ 32 = int e" using assms(2) by simp
  ultimately show ?thesis
    unfolding block_record_def by (simp add: block_record_fields(1)[OF assms(1)])
qed

lemma block_record_size:
  assumes "length mb = 7"
  shows "bit_unpack (block_record mb e n) 32 24 = n mod 2 ^ 24"
proof -
  have "to_int32 (int n) mod 2 ^ 24 = int n mod 2 ^ 24" by (rule to_int32_low_bits) simp
  then have "nat (to_int32 (int n) mod 2 ^ 24) = n mod 2 ^ 24"
    by (simp add: nat_mod_distrib flip: of_nat_power of_nat_mod)
  then show ?thesis
    unfolding block_record_def by (simp only: block_record_fields(2)[OF assms])
qed

lemma shape_cell_effect:
  assumes v: "valid_cell (lat, lon)"
    and o: "SHPOpen w (shpname_of lat lon file_ext) = Some shapes" "load_polys shapes = Inr p"
    and z: "fst (cell_compress w resolution num_threads p lat lon) = 0"
    and l: "data_start \<le> length (content (ofp s))" "length (content (ofp s)) < 2 ^ 31"
    and m: "length (mapbuf s) = 7"
  shows "shape_cell w resolution num_threads lat lon file_ext s =
           Inr (store_block (map_address_of lat lon)
                  (snd (cell_compress w resolution num_threads p lat lon))
                  (cell_log resolution num_threads s))"
    and "content (ofp (store_block (map_address_of lat lon)
                  (snd (cell_compress w resolution num_threads p lat lon))
                  (cell_log resolution num_threads s))) =
           take (nat (map_address_of lat lon)) (content (ofp s)) @
           block_record (mapbuf s) (length (content (ofp s)))
             (length (snd (cell_compress w resolution num_threads p lat lon))) @
           drop (nat (map_address_of lat lon) + 7) (content (ofp s)) @
           snd (cell_compress w resolution num_threads p lat lon)"
    and "events (store_block (map_address_of lat lon)
                  (snd (cell_compress w resolution num_threads p lat lon))
                  (cell_log resolution num_threads s)) =
           events s @ map (\<lambda>i. MaskStart (int i)) [0..<nat num_threads] @
           [Compress (nat (bit_block_size (3600 div resolution))),
            FWrite (nat (map_address_of lat lon)) 7,
            FWrite (length (content (ofp s)))
                   (length (snd (cell_compress w resolution num_threads p lat lon)))]"
    and "mapbuf (store_block (map_address_of lat lon)
                  (snd (cell_compress w resolution num_threads p lat lon))
                  (cell_log resolution num_threads s)) =
           block_record (mapbuf s) (length (content (ofp s)))
             (length (snd (cell_compress w resolution num_threads p lat lon)))"
proof -
  let ?out = "snd (cell_compress w resolution num_threads p lat lon)"
  let ?s = "cell_log resolution num_threads s"
  have a: "0 \<le> map_address_of lat lon" "nat (map_address_of lat lon) + 7 \<le> length (content (ofp ?s))"
    using map_address_valid[OF v] l(1) by (simp_all add: data_start_def cell_log_fields)
  have m': "length (mapbuf ?s) = 7" using m by (simp add: cell_log_fields)
  have l': "length (content (ofp ?s)) < 2 ^ 31" using l(2) by (simp add: cell_log_fields)
  note e = store_block_effect[OF a m' l', of ?out]
  show "shape_cell w resolution num_threads lat lon file_ext s =
           Inr (store_block (map_address_of lat lon) ?out ?s)"
    using shape_cell_unfold[OF o] z by simp
  show "content (ofp (store_block (map_address_of lat lon) ?out ?s)) =
           take (nat (map_address_of lat lon)) (content (ofp s)) @
           block_record (mapbuf s) (length (content (ofp s))) (length ?out) @
           drop (nat (map_address_of lat lon) + 7) (content (ofp s)) @ ?out"
    using e(1) by (simp add: cell_log_fields)
  show "events (store_block (map_address_of lat lon) ?out ?s) =
           events s @ map (\<lambda>i. MaskStart (int i)) [0..<nat num_threads] @
           [Compress (nat (bit_block_size (3600 div resolution))),
            FWrite (nat (map_address_of lat lon)) 7,
            FWrite (length (content (ofp s))) (length ?out)]"
    using e(2) by (simp add: cell_log_fields)
  show "mapbuf (store_block (map_address_of lat lon) ?out ?s) =
           block_record (mapbuf s) (length (content (ofp s))) (length ?out)"
    using e(3) by (simp add: cell_log_fields)
qed

lemma stored_record:
  assumes v: "valid_cell (lat, lon)"
    and l: "data_start \<le> length f" "length f < 2 ^ 31"
    and m: "length mb = 7"
  shows "record_code (take (nat (map_address_of lat lon)) f @ block_record mb (length f) n @
                      drop (nat (map_address_of lat lon) + 7) f @ out) (lat, lon) = length f"
    and "record_size (take (nat (map_address_of lat lon)) f @ block_record mb (length f) n @
                      drop (nat (map_address_of lat lon) + 7) f @ out) (lat, lon) = n mod 2 ^ 24"
proof -
  have a: "nat (map_address_of (fst (lat, lon)) (snd (lat, lon))) + 7 \<le> length f"
    using map_address_valid[OF v] l(1) by (simp add: data_start_def)
  have lr: "length (block_record mb (length f) n) = 7" using m by (simp add: length_block_record)
  have rb: "record_bytes (take (nat (map_address_of lat lon)) f @ block_record mb (length f) n @
                      drop (nat (map_address_of lat lon) + 7) f @ out) (lat, lon) =
            block_record mb (length f) n"
    using record_bytes_written[OF v a lr, of out] by simp
  show "record_code (take (nat (map_address_of lat lon)) f @ block_record mb (length f) n @
                      drop (nat (map_address_of lat lon) + 7) f @ out) (lat, lon) = length f"
    unfolding record_code_def rb by (rule block_record_code[OF m l(2)])
  show "record_size (take (nat (map_address_of lat lon)) f @ block_record mb (length f) n @
                      drop (nat (map_address_of lat lon) + 7) f @ out) (lat, lon) = n mod 2 ^ 24"
    unfolding record_size_def rb by (rule block_record_size[OF m])
qed

lemma stored_block:
  assumes "a + 7 \<le> length f" "length mb = 7"
  shows "take (length out) (drop (length f) (take a f @ mb @ drop (a + 7) f @ out)) = out"
proof -
  have "length (take a f @ mb @ drop (a + 7) f) = length f" using assms by simp
  then have "drop (length f) ((take a f @ mb @ drop (a + 7) f) @ out) = out"
    by (metis append_eq_conv_conj)
  then show ?thesis by simp
qed

subsection \<open>The example worlds\<close>

lemma load_point_shape: "load_polys [point_shape] = Inr (no_polys\<lparr>num_poly := 0\<rparr>)"
  by (simp add: load_polys_def point_shape_def no_polys_def)

lemma world_with_shapes_fields:
  "SHPOpen world_with_shapes n = Some [point_shape]"
  "shp_exists world_with_shapes n"
  "compress2 world_with_shapes cap source level =
     (if 3 \<le> cap then (0, [120, 218, 1]) else (-5, []))"
  by (simp_all add: world_with_shapes_def compress2_def zlib_header_def Z_OK_def
      Z_BUF_ERROR_def)

lemma out_buf_size_room: "3 \<le> out_buf_size (bit_block_size pc)"
proof -
  have "0 \<le> bit_block_size pc"
    using bit_block_size_covers[of pc] zero_le_square[of pc] by linarith
  then have "(100::real) \<le> real_of_int (bit_block_size pc) + real_of_int (bit_block_size pc) * 0.10 + 100"
    by simp
  then have "100 \<le> \<lfloor>real_of_int (bit_block_size pc) + real_of_int (bit_block_size pc) * 0.10 + 100\<rfloor>"
    by linarith
  then show ?thesis unfolding out_buf_size_def by linarith
qed

lemma empty_map_state_fields:
  "length (content (ofp empty_map_state)) = 469984"
  "length (mapbuf empty_map_state) = 7"
  "events empty_map_state = []"
  by (simp_all add: empty_map_state_def)

lemma map_address_0_0: "map_address_of 0 0 = 244444"
  using map_address_valid(1)[of "(0, 0)"] by (simp add: valid_cell_def)

lemma bit_block_size_60: "bit_block_size 60 = 450"
  by (simp add: bit_block_size_def)

lemma workers_4: "map (\<lambda>i. MaskStart (int i)) [0..<4] =
    [MaskStart 0, MaskStart 1, MaskStart 2, MaskStart 3]"
proof -
  have "[0..<4] = [0, 1, 2, 3]" by (simp add: upt_rec eval_nat_numeral)
  then show ?thesis by simp
qed

subsection \<open>The order of the two writes\<close>

lemma cell_compress_with_shapes:
  "cell_compress world_with_shapes resolution num_threads p lat lon = (0, [120, 218, 1])"
  by (simp add: cell_compress_def world_with_shapes_fields out_buf_size_room)

text \<open>
  Claim C4 as it is stated fails: the block is not appended before the record is
  written. In the example the write of the record at 244444 comes first and the write of
  the block at the end of the file (469984) second.
\<close>

theorem block_written_after_record:
  "shape_cell world_with_shapes 60 4 0 0 0 empty_map_state =
     Inr (store_block 244444 [120, 218, 1] (cell_log 60 4 empty_map_state)) \<and>
   events (store_block 244444 [120, 218, 1] (cell_log 60 4 empty_map_state)) =
     [MaskStart 0, MaskStart 1, MaskStart 2, MaskStart 3, Compress 450,
      FWrite 244444 7, FWrite 469984 3] \<and>
   \<not> precedes (FWrite 469984 3) (FWrite 244444 7)
        (events (store_block 244444 [120, 218, 1] (cell_log 60 4 empty_map_state)))"
proof -
  have v: "valid_cell (0, 0)" by (simp add: valid_cell_def)
  have z: "fst (cell_compress world_with_shapes 60 4 (no_polys\<lparr>num_poly := 0\<rparr>) 0 0) = 0"
    by (simp add: cell_compress_with_shapes)
  have l: "data_start \<le> length (content (ofp empty_map_state))"
      "length (content (ofp empty_map_state)) < 2 ^ 31"
    by (simp_all add: empty_map_state_fields data_start_def)
  note e = shape_cell_effect[OF v world_with_shapes_fields(1) load_point_shape z l
      empty_map_state_fields(2)]
  have a: "shape_cell world_with_shapes 60 4 0 0 0 empty_map_state =
     Inr (store_block 244444 [120, 218, 1] (cell_log 60 4 empty_map_state))"
    using e(1) by (simp add: cell_compress_with_shapes map_address_0_0)
  have b: "events (store_block 244444 [120, 218, 1] (cell_log 60 4 empty_map_state)) =
     [MaskStart 0, MaskStart 1, MaskStart 2, MaskStart 3, Compress 450,
      FWrite 244444 7, FWrite 469984 3]"
    using e(3)
    by (simp add: cell_compress_with_shapes map_address_0_0 empty_map_state_fields
        bit_block_size_60 workers_4)
  show ?thesis unfolding b using a by (simp add: precedes_def)
qed

subsection \<open>The size of the output buffer\<close>

lemma out_buf_size_valid:
  assumes "resolution \<in> {1, 3, 10, 30, 60}"
  shows "out_buf_size (bit_block_size (3600 div resolution)) \<le> 1782100"
  using assms by (auto simp: out_buf_size_def bit_block_size_def)

subsection \<open>Shape files without polygons\<close>

lemma read_shapes_small:
  "\<forall>sh\<in>set shapes. nVertices sh < 2 \<Longrightarrow> read_shapes shapes p = Inr p"
  by (induction shapes arbitrary: p) simp_all

lemma load_polys_small:
  "\<forall>sh\<in>set shapes. nVertices sh < 2 \<Longrightarrow> load_polys shapes = Inr (no_polys\<lparr>num_poly := 0\<rparr>)"
  by (simp add: load_polys_def read_shapes_small no_polys_def)

lemma inside_count_no_polys: "l_num_poly a = 0 \<Longrightarrow> inside_count_of inside a slon slat = 0"
  by (simp add: inside_count_of_def)

lemma sample_flag_no_polys: "l_num_poly a = 0 \<Longrightarrow> sample_flag inside a i j = NVTrue"
  by (simp add: sample_flag_def inside_count_no_polys Let_def)

lemma compute_mask_no_polys:
  assumes v: "resolution \<in> {1, 3, 10, 30, 60}" "num_threads \<in> {4, 16}"
    and n: "num_poly p = 0"
  shows "fst (compute_mask w resolution num_threads p lat lon) =
           replicate (nat (point_count_of resolution * point_count_of resolution)) NVTrue"
proof (rule nth_equalityI)
  show "length (fst (compute_mask w resolution num_threads p lat lon)) =
        length (replicate (nat (point_count_of resolution * point_count_of resolution)) NVTrue)"
    by (simp add: compute_mask_length)
next
  let ?pc = "point_count_of resolution"
  fix k assume "k < length (fst (compute_mask w resolution num_threads p lat lon))"
  then have k: "k < nat (?pc * ?pc)" by (simp add: compute_mask_length)
  have pc: "0 < ?pc" using point_count_valid[OF v(1)] by auto
  let ?i = "int k div ?pc" and ?j = "int k mod ?pc"
  have kk: "int k < ?pc * ?pc" using k by linarith
  have ij: "0 \<le> ?i" "?i < ?pc" "0 \<le> ?j" "?j < ?pc"
    using pc kk div_band_less[OF pc, of "int k" ?pc] by simp_all
  have e: "nat (?i * ?pc + ?j) = k" by simp
  have "fst (compute_mask w resolution num_threads p lat lon) ! nat (?i * ?pc + ?j) =
        sample_flag (inside_polygon2 w) (mask_params_of resolution p lat lon num_threads 0) ?i ?j"
    by (rule compute_mask_grid[OF v ij])
  also have "\<dots> = NVTrue"
    by (rule sample_flag_no_polys) (simp add: mask_params_of_fields n)
  finally show "fst (compute_mask w resolution num_threads p lat lon) ! k =
        replicate (nat (?pc * ?pc)) NVTrue ! k"
    using k by (simp only: e nth_replicate)
qed

lemma find_shp_with_shapes: "find_shp world_with_shapes lat lon = Some 0"
  by (simp add: find_shp_def world_with_shapes_fields upt_rec)

subsection \<open>The file never shrinks\<close>

lemma fwrite_length_mono: "length (content f) \<le> length (content (fwrite buf f))"
  by (simp add: fwrite_def) linarith

lemma st_fwrite_fields:
  "mapbuf (st_fwrite buf s) = mapbuf s"
  "events (st_fwrite buf s) = events s @ [FWrite (fpos (ofp s)) (length buf)]"
  "ofp (st_fwrite buf s) = fwrite buf (ofp s)"
  "total_blocks (st_fwrite buf s) = total_blocks s"
  by (simp_all add: st_fwrite_def)

lemma st_fseek_set_fields:
  "mapbuf (st_fseek_set a s) = mapbuf s"
  "events (st_fseek_set a s) = events s"
  "content (ofp (st_fseek_set a s)) = content (ofp s)"
  "total_blocks (st_fseek_set a s) = total_blocks s"
  by (simp_all add: st_fseek_set_def fseek_set_def)

lemma write_mapbuf_length_mono:
  "length (content (ofp s)) \<le> length (content (ofp (write_mapbuf a s)))"
  unfolding write_mapbuf_def st_fwrite_fields
  using fwrite_length_mono[of "ofp (st_fseek_set a s)" "mapbuf (st_fseek_set a s)"]
  by (simp add: st_fseek_set_fields)

lemma no_file_cell_length_mono:
  "length (content (ofp s)) \<le> length (content (ofp (no_file_cell w lat lon s)))"
proof -
  have "\<And>t. length (content (ofp t)) = length (content (ofp s)) \<Longrightarrow>
      length (content (ofp s)) \<le> length (content (ofp (write_mapbuf (map_address_of lat lon) t)))"
    using write_mapbuf_length_mono by metis
  then show ?thesis
    by (simp add: no_file_cell_def Let_def st_event_def)
qed

lemma store_block_length_mono:
  "length (content (ofp s)) \<le> length (content (ofp (store_block a out s)))"
proof -
  let ?s2 = "(st_fseek_end s)\<lparr>mapbuf := bit_pack (bit_pack (mapbuf (st_fseek_end s)) 0 32
      (to_int32 (ftell (ofp (st_fseek_end s))))) 32 24 (to_int32 (int (length out)))\<rparr>"
  let ?s3 = "write_mapbuf a ?s2"
  let ?s4 = "st_fwrite out (st_fseek_set (to_int32 (ftell (ofp (st_fseek_end s)))) ?s3)"
  have "length (content (ofp s)) = length (content (ofp ?s2))" by (simp add: st_fseek_end_fields)
  also have "\<dots> \<le> length (content (ofp ?s3))" by (rule write_mapbuf_length_mono)
  also have "\<dots> \<le> length (content (ofp ?s4))"
    unfolding st_fwrite_fields
    using fwrite_length_mono[of "ofp (st_fseek_set (to_int32 (ftell (ofp (st_fseek_end s)))) ?s3)" out]
    by (simp add: st_fseek_set_fields)
  finally show ?thesis by (simp add: store_block_def Let_def)
qed

lemma process_cell_length_mono:
  assumes "process_cell w resolution num_threads c s = Inr s'"
  shows "length (content (ofp s)) \<le> length (content (ofp s'))"
proof (cases "find_shp w (fst c) (snd c)")
  case None
  then show ?thesis using assms no_file_cell_length_mono by (auto simp: process_cell_def)
next
  case (Some ext)
  then have "shape_cell w resolution num_threads (fst c) (snd c) ext s = Inr s'"
    using assms by (simp add: process_cell_def)
  then obtain out where "s' = store_block (map_address_of (fst c) (snd c)) out
      (cell_log resolution num_threads s)"
    by (auto simp: shape_cell_def cell_log_def Let_def split: option.splits sum.splits prod.splits if_splits)
  then show ?thesis
    using store_block_length_mono[of "cell_log resolution num_threads s"]
    by (simp add: cell_log_fields)
qed

lemma run_cells_length_mono:
  "run_cells w resolution num_threads cs s = Inr s' \<Longrightarrow>
   length (content (ofp s)) \<le> length (content (ofp s'))"
proof (induction cs arbitrary: s)
  case Nil
  then show ?case by simp
next
  case (Cons c cs)
  then obtain s1 where s1: "process_cell w resolution num_threads c s = Inr s1"
      "run_cells w resolution num_threads cs s1 = Inr s'"
    by (auto split: sum.splits)
  show ?case using process_cell_length_mono[OF s1(1)] Cons.IH[OF s1(2)] by linarith
qed

subsection \<open>The header and the empty directory\<close>

lemma length_cells: "length cells = 64800"
  by (simp only: cells_def length_product length_upto) simp

lemma distinct_cells: "distinct cells"
  unfolding cells_def by (intro distinct_product distinct_upto)

lemma st_fwrite_at_end:
  assumes "fpos (ofp s) = length (content (ofp s))"
  shows "content (ofp (st_fwrite buf s)) = content (ofp s) @ buf"
    and "fpos (ofp (st_fwrite buf s)) = length (content (ofp (st_fwrite buf s)))"
  using assms by (simp_all add: st_fwrite_def fwrite_def)

lemma fold_st_fwrite_at_end:
  assumes "fpos (ofp s) = length (content (ofp s))"
  shows "length (content (ofp (fold (\<lambda>x. st_fwrite buf) xs s))) =
           length (content (ofp s)) + length xs * length buf \<and>
         fpos (ofp (fold (\<lambda>x. st_fwrite buf) xs s)) =
           length (content (ofp (fold (\<lambda>x. st_fwrite buf) xs s))) \<and>
         mapbuf (fold (\<lambda>x. st_fwrite buf) xs s) = mapbuf s"
  using assms
proof (induction xs arbitrary: s)
  case Nil
  then show ?case by simp
next
  case (Cons x xs)
  note e = st_fwrite_at_end[OF Cons.prems, of buf]
  show ?case using Cons.IH[OF e(2)] e(1) by (simp add: st_fwrite_fields)
qed

lemma write_header_end:
  "fpos (ofp (write_header w resolution initial_state)) =
     length (content (ofp (write_header w resolution initial_state))) \<and>
   16384 \<le> length (content (ofp (write_header w resolution initial_state))) \<and>
   (length (header_text w resolution) \<le> 16384 \<longrightarrow>
      length (content (ofp (write_header w resolution initial_state))) = 16384)"
proof -
  let ?h = "bytes_of (header_text w resolution)"
  let ?s1 = "st_fwrite ?h initial_state"
  have i: "fpos (ofp initial_state) = length (content (ofp initial_state))"
    by (simp add: initial_state_def)
  note e = st_fwrite_at_end[OF i, of ?h]
  have l1: "length (content (ofp ?s1)) = length (header_text w resolution)"
    using e(1) by (simp add: initial_state_def bytes_of_def)
  let ?j = "to_int32 (ftell (ofp ?s1))"
  let ?r = "fold (\<lambda>i. st_fwrite [0]) [?j .. SWBD_MASK_HEADER_SIZE - 1] ?s1"
  have wh: "write_header w resolution initial_state = ?r"
    by (simp add: write_header_def Let_def)
  note f = fold_st_fwrite_at_end[OF e(2), of "[0]" "[?j .. SWBD_MASK_HEADER_SIZE - 1]"]
  have len: "length (content (ofp ?r)) =
      length (header_text w resolution) + nat (SWBD_MASK_HEADER_SIZE - ?j)"
    using f l1 by (simp only: length_upto list.size) simp
  have ge: "16384 \<le> length (content (ofp ?r))"
  proof (cases "length (header_text w resolution) < 16384")
    case True
    then have "?j = int (length (header_text w resolution))"
      using e(2) l1 by (simp add: ftell_def to_int32_id)
    then show ?thesis using len True by (simp add: SWBD_MASK_HEADER_SIZE_def)
  next
    case False
    then show ?thesis using len by simp
  qed
  have eq: "length (content (ofp ?r)) = 16384" if "length (header_text w resolution) \<le> 16384"
  proof -
    have "?j = int (length (header_text w resolution))"
      using e(2) l1 that by (simp add: ftell_def to_int32_id)
    then show ?thesis using len that by (simp add: SWBD_MASK_HEADER_SIZE_def)
  qed
  show ?thesis unfolding wh using f ge eq by blast
qed

lemma start_state:
  "data_start \<le> length (content (ofp (write_empty_map (write_header w resolution initial_state))))"
  "length (mapbuf (write_empty_map (write_header w resolution initial_state))) = 7"
  "length (header_text w resolution) \<le> 16384 \<Longrightarrow>
     length (content (ofp (write_empty_map (write_header w resolution initial_state)))) = data_start"
proof -
  let ?s = "write_header w resolution initial_state"
  let ?t = "?s\<lparr>mapbuf := replicate 7 0\<rparr>"
  have h: "fpos (ofp ?t) = length (content (ofp ?t))" using write_header_end[of w resolution] by simp
  note f = fold_st_fwrite_at_end[OF h, of "replicate 7 0" cells]
  have len: "length (content (ofp (write_empty_map ?s))) = length (content (ofp ?s)) + 453600"
    unfolding write_empty_map_def using f by (simp add: length_cells)
  show "data_start \<le> length (content (ofp (write_empty_map ?s)))"
    using len write_header_end[of w resolution] by (simp add: data_start_def)
  show "length (mapbuf (write_empty_map ?s)) = 7"
    unfolding write_empty_map_def using f by simp
  show "length (header_text w resolution) \<le> 16384 \<Longrightarrow>
     length (content (ofp (write_empty_map ?s))) = data_start"
    using len write_header_end[of w resolution] by (simp add: data_start_def)
qed

subsection \<open>The directory invariant\<close>

lemma directory_ok_empty: "directory_ok {} f"
  by (simp add: directory_ok_def)

text \<open>A step that writes the record of a new cell with a code of 0, 1 or 2.\<close>

lemma directory_ok_sentinel:
  assumes ok: "directory_ok D f"
    and kept: "\<forall>d\<in>D. record_code g d = record_code f d \<and> record_size g d = record_size f d"
    and len: "length f \<le> length g"
    and new: "record_code g x \<in> {0, 1, 2}"
  shows "directory_ok (insert x D) g"
  unfolding directory_ok_def
proof (intro ballI)
  fix c assume c: "c \<in> insert x D"
  show "record_code g c \<in> {0, 1, 2} \<or>
        (data_start \<le> record_code g c \<and> record_code g c + record_size g c \<le> length g \<and>
         (\<forall>d\<in>insert x D. d \<noteq> c \<and> record_code g d \<notin> {0, 1, 2} \<longrightarrow> blocks_apart g c d))"
  proof (cases "record_code g c \<in> {0, 1, 2}")
    case True
    then show ?thesis by simp
  next
    case False
    then have cD: "c \<in> D" "c \<noteq> x" using c new by auto
    have fc: "record_code f c \<notin> {0, 1, 2}" using False kept cD(1) by simp
    then have o: "data_start \<le> record_code f c" "record_code f c + record_size f c \<le> length f"
        "\<forall>d\<in>D. d \<noteq> c \<and> record_code f d \<notin> {0, 1, 2} \<longrightarrow> blocks_apart f c d"
      using ok cD(1) unfolding directory_ok_def by blast+
    have "\<forall>d\<in>insert x D. d \<noteq> c \<and> record_code g d \<notin> {0, 1, 2} \<longrightarrow> blocks_apart g c d"
    proof (intro ballI impI)
      fix d assume d: "d \<in> insert x D" "d \<noteq> c \<and> record_code g d \<notin> {0, 1, 2}"
      then have dD: "d \<in> D" using new by auto
      then have "blocks_apart f c d" using o(3) d(2) kept by simp
      then show "blocks_apart g c d" using kept cD(1) dD by (simp add: blocks_apart_def)
    qed
    then show ?thesis using o(1,2) kept cD(1) len by simp
  qed
qed

text \<open>A step that appends the block of a new cell at the end of the file.\<close>

lemma directory_ok_block:
  assumes ok: "directory_ok D f"
    and kept: "\<forall>d\<in>D. record_code g d = record_code f d \<and> record_size g d = record_size f d"
    and new: "record_code g x = length f" "length f + record_size g x \<le> length g"
    and st: "data_start \<le> length f"
  shows "directory_ok (insert x D) g"
  unfolding directory_ok_def
proof (intro ballI)
  fix c assume c: "c \<in> insert x D"
  have len: "length f \<le> length g" using new(2) by simp
  have old: "record_code f d + record_size f d \<le> length f"
    if "d \<in> D" "record_code f d \<notin> {0, 1, 2}" for d
    using ok that unfolding directory_ok_def by blast
  show "record_code g c \<in> {0, 1, 2} \<or>
        (data_start \<le> record_code g c \<and> record_code g c + record_size g c \<le> length g \<and>
         (\<forall>d\<in>insert x D. d \<noteq> c \<and> record_code g d \<notin> {0, 1, 2} \<longrightarrow> blocks_apart g c d))"
  proof (cases "c = x")
    case True
    have "\<forall>d\<in>insert x D. d \<noteq> c \<and> record_code g d \<notin> {0, 1, 2} \<longrightarrow> blocks_apart g c d"
    proof (intro ballI impI)
      fix d assume d: "d \<in> insert x D" "d \<noteq> c \<and> record_code g d \<notin> {0, 1, 2}"
      then have dD: "d \<in> D" using True by auto
      then have "record_code f d + record_size f d \<le> length f" using old d(2) kept by simp
      then show "blocks_apart g c d" using kept dD new(1) True by (simp add: blocks_apart_def)
    qed
    then show ?thesis using True new st by simp
  next
    case False
    then have cD: "c \<in> D" using c by simp
    show ?thesis
    proof (cases "record_code g c \<in> {0, 1, 2}")
      case True
      then show ?thesis by simp
    next
      case nz: False
      have fc: "record_code f c \<notin> {0, 1, 2}" using nz kept cD by simp
      then have o: "data_start \<le> record_code f c" "record_code f c + record_size f c \<le> length f"
          "\<forall>d\<in>D. d \<noteq> c \<and> record_code f d \<notin> {0, 1, 2} \<longrightarrow> blocks_apart f c d"
        using ok cD unfolding directory_ok_def by blast+
      have "\<forall>d\<in>insert x D. d \<noteq> c \<and> record_code g d \<notin> {0, 1, 2} \<longrightarrow> blocks_apart g c d"
      proof (intro ballI impI)
        fix d assume d: "d \<in> insert x D" "d \<noteq> c \<and> record_code g d \<notin> {0, 1, 2}"
        show "blocks_apart g c d"
        proof (cases "d = x")
          case True
          then show ?thesis using o(2) kept cD new(1) by (simp add: blocks_apart_def)
        next
          case False
          then have dD: "d \<in> D" using d(1) by simp
          then have "blocks_apart f c d" using o(3) d(2) kept by simp
          then show ?thesis using kept cD dD by (simp add: blocks_apart_def)
        qed
      qed
      then show ?thesis using o(1,2) kept cD len by simp
    qed
  qed
qed

subsection \<open>One cell and the directory\<close>

lemma no_file_cell_patch:
  assumes "valid_cell (lat, lon)" "data_start \<le> length (content (ofp s))"
  shows "\<exists>mb. length mb = 7 \<and>
           content (ofp (no_file_cell w lat lon s)) =
             take (nat (map_address_of lat lon)) (content (ofp s)) @ mb @
             drop (nat (map_address_of lat lon) + 7) (content (ofp s)) @ [] \<and>
           mapbuf (no_file_cell w lat lon s) = mb"
proof -
  let ?a = "map_address_of lat lon"
  have a: "0 \<le> ?a" "nat ?a + 7 \<le> length (content (ofp s))"
    using map_address_valid[OF assms(1)] assms(2) by (simp_all add: data_start_def)
  have w: "length (mapbuf t) = 7 \<Longrightarrow> content (ofp t) = content (ofp s) \<Longrightarrow>
      content (ofp (write_mapbuf ?a t)) =
        take (nat ?a) (content (ofp s)) @ mapbuf t @ drop (nat ?a + 7) (content (ofp s)) @ [] \<and>
      mapbuf (write_mapbuf ?a t) = mapbuf t" for t
    using write_mapbuf_inside(1,4)[of ?a t] a by simp
  show ?thesis
  proof (cases "lat < -57 \<or> lat > 59")
    case True
    then have e: "no_file_cell w lat lon s = write_mapbuf ?a (s\<lparr>mapbuf := replicate 7 0\<rparr>)"
      by (simp add: no_file_cell_def)
    show ?thesis unfolding e using w[of "s\<lparr>mapbuf := replicate 7 0\<rparr>"] by auto
  next
    case False
    let ?v = "if read_srtm_mask_min_res w (real_of_int lat + 0.5) (real_of_int lon + 0.5) 3 = 0
            then 2 else (1::int)"
    let ?t = "(st_event (SrtmRead (real_of_int lat + 0.5) (real_of_int lon + 0.5)) s)
                \<lparr>mapbuf := bit_pack (replicate 7 0) 0 32 ?v\<rparr>"
    have e: "no_file_cell w lat lon s = write_mapbuf ?a ?t"
      using False by (simp add: no_file_cell_def Let_def)
    have "length (mapbuf ?t) = 7" "content (ofp ?t) = content (ofp s)"
      by (simp_all add: length_bit_pack st_event_def)
    then show ?thesis unfolding e using w[of ?t] by (intro exI[of _ "mapbuf ?t"]) simp
  qed
qed

lemma no_file_cell_code:
  assumes "valid_cell (lat, lon)" "data_start \<le> length (content (ofp s))"
  shows "record_code (content (ofp (no_file_cell w lat lon s))) (lat, lon) \<in> {0, 1, 2}"
proof (cases "lat < -57 \<or> lat > 59")
  case True
  then show ?thesis using no_file_cell_outside_band(1)[OF assms True, of w] by simp
next
  case False
  then show ?thesis using no_file_cell_inside_band(1)[OF assms False, of w] by simp
qed

lemma patch_keeps_records:
  assumes "valid_cell c" "valid_cell d" "c \<noteq> d" "length mb = 7" "data_start \<le> length f"
  shows "record_code (take (nat (map_address_of (fst c) (snd c))) f @ mb @
                       drop (nat (map_address_of (fst c) (snd c)) + 7) f @ rest) d = record_code f d"
    and "record_size (take (nat (map_address_of (fst c) (snd c))) f @ mb @
                       drop (nat (map_address_of (fst c) (snd c)) + 7) f @ rest) d = record_size f d"
proof -
  have a: "nat (map_address_of (fst c) (snd c)) + 7 \<le> length f"
      "nat (map_address_of (fst d) (snd d)) + 7 \<le> length f"
    using map_address_valid[OF assms(1)] map_address_valid[OF assms(2)] assms(5)
    by (simp_all add: data_start_def)
  note k = record_bytes_kept[OF assms(1,2,3,4) a, of rest]
  show "record_code (take (nat (map_address_of (fst c) (snd c))) f @ mb @
                       drop (nat (map_address_of (fst c) (snd c)) + 7) f @ rest) d = record_code f d"
    by (simp only: record_code_def k)
  show "record_size (take (nat (map_address_of (fst c) (snd c))) f @ mb @
                       drop (nat (map_address_of (fst c) (snd c)) + 7) f @ rest) d = record_size f d"
    by (simp only: record_size_def k)
qed

text \<open>
  What the processing of one cell does to the directory while the file is shorter than
  \<open>2\<^sup>3\<^sup>1\<close> bytes.
\<close>

lemma process_cell_step:
  assumes v: "valid_cell x"
    and l: "data_start \<le> length (content (ofp s))" "length (content (ofp s)) < 2 ^ 31"
    and m: "length (mapbuf s) = 7"
    and p: "process_cell w resolution num_threads x s = Inr s'"
  shows "length (mapbuf s') = 7"
    and "\<forall>d. valid_cell d \<and> d \<noteq> x \<longrightarrow>
           record_code (content (ofp s')) d = record_code (content (ofp s)) d \<and>
           record_size (content (ofp s')) d = record_size (content (ofp s)) d"
    and "(record_code (content (ofp s')) x \<in> {0, 1, 2} \<and>
            length (content (ofp s')) = length (content (ofp s))) \<or>
         (record_code (content (ofp s')) x = length (content (ofp s)) \<and>
            length (content (ofp s)) + record_size (content (ofp s')) x \<le> length (content (ofp s')))"
proof -
  let ?f = "content (ofp s)"
  let ?a = "nat (map_address_of (fst x) (snd x))"
  have vx: "valid_cell (fst x, snd x)" using v by simp
  have a: "?a + 7 \<le> length ?f"
    using map_address_valid[OF v] l(1) by (simp add: data_start_def)
  have "length (mapbuf s') = 7 \<and>
     (\<forall>d. valid_cell d \<and> d \<noteq> x \<longrightarrow>
           record_code (content (ofp s')) d = record_code ?f d \<and>
           record_size (content (ofp s')) d = record_size ?f d) \<and>
     ((record_code (content (ofp s')) x \<in> {0, 1, 2} \<and> length (content (ofp s')) = length ?f) \<or>
      (record_code (content (ofp s')) x = length ?f \<and>
       length ?f + record_size (content (ofp s')) x \<le> length (content (ofp s'))))"
  proof (cases "find_shp w (fst x) (snd x)")
    case None
    then have s': "s' = no_file_cell w (fst x) (snd x) s" using p by (simp add: process_cell_def)
    obtain mb where mb: "length mb = 7"
        "content (ofp s') = take ?a ?f @ mb @ drop (?a + 7) ?f @ []" "mapbuf s' = mb"
      using no_file_cell_patch[OF vx l(1), of w] unfolding s' by blast
    have k: "\<forall>d. valid_cell d \<and> d \<noteq> x \<longrightarrow>
           record_code (content (ofp s')) d = record_code ?f d \<and>
           record_size (content (ofp s')) d = record_size ?f d"
      unfolding mb(2) using patch_keeps_records[OF v _ _ mb(1) l(1), of _ "[]"] by blast
    have c: "record_code (content (ofp s')) x \<in> {0, 1, 2}"
      using no_file_cell_code[OF vx l(1), of w] unfolding s' by simp
    have "length (content (ofp s')) = length ?f" unfolding mb(2) using a mb(1) by simp
    then show ?thesis using mb(1,3) k c by simp
  next
    case (Some ext)
    then have sc: "shape_cell w resolution num_threads (fst x) (snd x) ext s = Inr s'"
      using p by (simp add: process_cell_def)
    then obtain shapes where o: "SHPOpen w (shpname_of (fst x) (snd x) ext) = Some shapes"
      by (auto simp: shape_cell_def split: option.splits)
    then obtain q where q: "load_polys shapes = Inr q"
      using sc by (auto simp: shape_cell_def split: sum.splits)
    have z: "fst (cell_compress w resolution num_threads q (fst x) (snd x)) = 0"
      using sc shape_cell_unfold[OF o q, of resolution num_threads s] by (auto split: if_splits)
    let ?out = "snd (cell_compress w resolution num_threads q (fst x) (snd x))"
    let ?mb = "block_record (mapbuf s) (length ?f) (length ?out)"
    note e = shape_cell_effect[OF vx o q z l m]
    have s': "s' = store_block (map_address_of (fst x) (snd x)) ?out (cell_log resolution num_threads s)"
      using e(1) sc by simp
    have cont: "content (ofp s') = take ?a ?f @ ?mb @ drop (?a + 7) ?f @ ?out"
      unfolding s' by (rule e(2))
    have lmb: "length ?mb = 7" using m by (simp add: length_block_record)
    have k: "\<forall>d. valid_cell d \<and> d \<noteq> x \<longrightarrow>
           record_code (content (ofp s')) d = record_code ?f d \<and>
           record_size (content (ofp s')) d = record_size ?f d"
      unfolding cont using patch_keeps_records[OF v _ _ lmb l(1), of _ ?out] by blast
    have r: "record_code (content (ofp s')) x = length ?f"
        "record_size (content (ofp s')) x = length ?out mod 2 ^ 24"
      unfolding cont using stored_record[OF vx l m, of "length ?out" ?out] by simp_all
    have len: "length (content (ofp s')) = length ?f + length ?out"
      unfolding cont using a lmb by simp
    have "length ?out mod 2 ^ 24 \<le> length ?out" by simp
    then have "length ?f + record_size (content (ofp s')) x \<le> length (content (ofp s'))"
      unfolding r(2) len by simp
    moreover have "length (mapbuf s') = 7" unfolding s' e(4) by (rule lmb)
    ultimately show ?thesis using k r(1) by simp
  qed
  then show "length (mapbuf s') = 7"
    and "\<forall>d. valid_cell d \<and> d \<noteq> x \<longrightarrow>
           record_code (content (ofp s')) d = record_code (content (ofp s)) d \<and>
           record_size (content (ofp s')) d = record_size (content (ofp s)) d"
    and "(record_code (content (ofp s')) x \<in> {0, 1, 2} \<and>
            length (content (ofp s')) = length (content (ofp s))) \<or>
         (record_code (content (ofp s')) x = length (content (ofp s)) \<and>
            length (content (ofp s)) + record_size (content (ofp s')) x \<le> length (content (ofp s')))"
    by blast+
qed

subsection \<open>A full run and the directory\<close>

lemma run_cells_directory:
  assumes "run_cells w resolution num_threads cs s = Inr s'"
    and "length (content (ofp s')) < 2 ^ 31"
    and "distinct cs" and "\<forall>c\<in>set cs. valid_cell c"
    and "set cs \<inter> D = {}" and "\<forall>d\<in>D. valid_cell d"
    and "directory_ok D (content (ofp s))"
    and "data_start \<le> length (content (ofp s))" and "length (mapbuf s) = 7"
  shows "directory_ok (D \<union> set cs) (content (ofp s'))"
  using assms
proof (induction cs arbitrary: s D)
  case Nil
  then show ?case by simp
next
  case (Cons c cs)
  obtain s1 where s1: "process_cell w resolution num_threads c s = Inr s1"
      "run_cells w resolution num_threads cs s1 = Inr s'"
    using Cons.prems(1) by (auto split: sum.splits)
  have mono: "length (content (ofp s)) \<le> length (content (ofp s1))"
      "length (content (ofp s1)) \<le> length (content (ofp s'))"
    using process_cell_length_mono[OF s1(1)] run_cells_length_mono[OF s1(2)] by simp_all
  have l: "length (content (ofp s)) < 2 ^ 31" using mono Cons.prems(2) by linarith
  have v: "valid_cell c" using Cons.prems(4) by simp
  have cD: "c \<notin> D" using Cons.prems(5) by auto
  note st = process_cell_step[OF v Cons.prems(8) l Cons.prems(9) s1(1)]
  have kept: "\<forall>d\<in>D. record_code (content (ofp s1)) d = record_code (content (ofp s)) d \<and>
                    record_size (content (ofp s1)) d = record_size (content (ofp s)) d"
    using st(2) Cons.prems(6) cD by blast
  have ok1: "directory_ok (insert c D) (content (ofp s1))"
    using st(3)
  proof
    assume "record_code (content (ofp s1)) c \<in> {0, 1, 2} \<and>
            length (content (ofp s1)) = length (content (ofp s))"
    then show ?thesis
      using directory_ok_sentinel[OF Cons.prems(7) kept, of c] by simp
  next
    assume "record_code (content (ofp s1)) c = length (content (ofp s)) \<and>
            length (content (ofp s)) + record_size (content (ofp s1)) c \<le> length (content (ofp s1))"
    then show ?thesis
      using directory_ok_block[OF Cons.prems(7) kept _ _ Cons.prems(8), of c] by simp
  qed
  have "directory_ok (insert c D \<union> set cs) (content (ofp s'))"
  proof (rule Cons.IH[OF s1(2) Cons.prems(2)])
    show "distinct cs" using Cons.prems(3) by simp
    show "\<forall>c\<in>set cs. valid_cell c" using Cons.prems(4) by simp
    show "set cs \<inter> insert c D = {}" using Cons.prems(3,5) by auto
    show "\<forall>d\<in>insert c D. valid_cell d" using Cons.prems(6) v by simp
    show "directory_ok (insert c D) (content (ofp s1))" by (rule ok1)
    show "data_start \<le> length (content (ofp s1))" using mono(1) Cons.prems(8) by linarith
    show "length (mapbuf s1) = 7" by (rule st(1))
  qed
  then show ?case by simp
qed

lemma main_directory:
  assumes "main w argv = Inr s" and "length (content (ofp s)) < 2 ^ 31"
  shows "directory_ok (set cells) (content (ofp s))"
proof -
  obtain resolution num_threads where
    r: "run_cells w resolution num_threads cells
          (write_empty_map (write_header w resolution initial_state)) = Inr s"
    using assms(1) by (auto simp: main_def split: sum.splits prod.splits if_splits)
  have "directory_ok ({} \<union> set cells) (content (ofp s))"
    using r assms(2)
  proof (rule run_cells_directory)
    show "distinct cells" by (rule distinct_cells)
    show "\<forall>c\<in>set cells. valid_cell c" by (simp add: set_cells)
    show "set cells \<inter> {} = {}" by simp
    show "\<forall>d\<in>{}. valid_cell d" by simp
    show "directory_ok {} (content (ofp (write_empty_map (write_header w resolution initial_state))))"
      by (rule directory_ok_empty)
    show "data_start \<le> length (content (ofp (write_empty_map (write_header w resolution initial_state))))"
      by (rule start_state(1))
    show "length (mapbuf (write_empty_map (write_header w resolution initial_state))) = 7"
      by (rule start_state(2))
  qed
  then show ?thesis by simp
qed

subsection \<open>A block written when the end of the file does not fit 31 bits\<close>

lemma to_int32_high:
  assumes "2 ^ 31 \<le> v" "v < 2 ^ 32"
  shows "to_int32 v = v - 2 ^ 32"
proof -
  have "signed_take_bit 31 v = signed_take_bit 31 (v - 2 ^ 32)"
    by (simp add: signed_take_bit_eq_iff_take_bit_eq take_bit_eq_mod)
  also have "\<dots> = v - 2 ^ 32"
    using assms by (intro signed_take_bit_int_eq_self) simp_all
  finally show ?thesis by (simp add: to_int32_def sint_sbintrunc')
qed

lemma block_record_code_high:
  assumes "length mb = 7" "2 ^ 31 \<le> e" "e < 2 ^ 32"
  shows "bit_unpack (block_record mb e n) 0 32 = e"
proof -
  have "to_int32 (int e) mod 2 ^ 32 = int e mod 2 ^ 32" by (rule to_int32_low_bits) simp
  also have "\<dots> = int e" using assms(3) by simp
  finally show ?thesis
    unfolding block_record_def by (simp add: block_record_fields(1)[OF assms(1)])
qed

lemma st_fseek_set_negative: "v < 0 \<Longrightarrow> st_fseek_set v t = t"
  by (simp add: st_fseek_set_def fseek_set_def)

text \<open>
  With the end of the file between \<open>2\<^sup>3\<^sup>1\<close> and \<open>2\<^sup>3\<^sup>2\<close>, \<open>block_address\<close> is negative,
  the seek to it fails and the block is written where the record ended.
\<close>

lemma store_block_overflow:
  assumes a: "0 \<le> a" "nat a + 7 + length out \<le> length (content (ofp s))"
    and m: "length (mapbuf s) = 7"
    and l: "2 ^ 31 \<le> length (content (ofp s))" "length (content (ofp s)) < 2 ^ 32"
  shows "content (ofp (store_block a out s)) =
           take (nat a) (content (ofp s)) @
           block_record (mapbuf s) (length (content (ofp s))) (length out) @
           out @ drop (nat a + 7 + length out) (content (ofp s))"
    and "events (store_block a out s) =
           events s @ [FWrite (nat a) 7, FWrite (nat a + 7) (length out)]"
    and "mapbuf (store_block a out s) =
           block_record (mapbuf s) (length (content (ofp s))) (length out)"
proof -
  let ?L = "length (content (ofp s))"
  let ?mb = "block_record (mapbuf s) ?L (length out)"
  let ?s2 = "(st_fseek_end s)\<lparr>mapbuf := ?mb\<rparr>"
  let ?s3 = "write_mapbuf a ?s2"
  let ?ba = "int ?L - 2 ^ 32"
  have ba: "to_int32 (int ?L) = ?ba" using l by (intro to_int32_high) simp_all
  have neg: "?ba < 0" using l(2) by simp
  have pre: "0 \<le> a" "nat a + 7 \<le> length (content (ofp ?s2))" "length (mapbuf ?s2) = 7"
    using a m by (simp_all add: st_fseek_end_fields length_block_record)
  note w = write_mapbuf_inside[OF pre]
  have c3: "content (ofp ?s3) = take (nat a) (content (ofp s)) @ ?mb @ drop (nat a + 7) (content (ofp s))"
    using w(1) by (simp add: st_fseek_end_fields)
  have e3: "events ?s3 = events s @ [FWrite (nat a) 7]" using w(3) by (simp add: st_fseek_end_fields)
  have m3: "mapbuf ?s3 = ?mb" using w(4) by (simp add: st_fseek_end_fields)
  have sb: "store_block a out s =
      (st_fwrite out ?s3)\<lparr>total_blocks := to_int32 (total_blocks (st_fwrite out ?s3) + 1)\<rparr>"
    using neg
    by (simp add: store_block_def Let_def block_record_def ftell_def st_fseek_end_fields ba
        st_fseek_set_negative)
  have lmb: "length ?mb = 7" using m by (simp add: length_block_record)
  have tk: "take (nat a + 7) (content (ofp ?s3)) = take (nat a) (content (ofp s)) @ ?mb"
    unfolding c3 using a lmb by simp
  have dr: "drop (nat a + 7 + length out) (content (ofp ?s3)) =
            drop (nat a + 7 + length out) (content (ofp s))"
    unfolding c3 using a lmb by (simp add: add.commute)
  have l3: "nat a + 7 \<le> length (content (ofp ?s3))" using w(6) pre(2) by simp
  have c4: "content (ofp (st_fwrite out ?s3)) =
      take (nat a) (content (ofp s)) @ ?mb @ out @ drop (nat a + 7 + length out) (content (ofp s))"
  proof (cases "out = []")
    case True
    then show ?thesis using c3 by (simp add: st_fwrite_def fwrite_def)
  next
    case False
    then have "content (ofp (st_fwrite out ?s3)) =
        take (nat a + 7) (content (ofp ?s3)) @ out @ drop (nat a + 7 + length out) (content (ofp ?s3))"
      using l3 w(2) by (simp add: st_fwrite_def fwrite_def)
    then show ?thesis by (simp only: tk dr append_assoc)
  qed
  show "content (ofp (store_block a out s)) =
           take (nat a) (content (ofp s)) @ ?mb @ out @ drop (nat a + 7 + length out) (content (ofp s))"
  proof -
    have "content (ofp (store_block a out s)) = content (ofp (st_fwrite out ?s3))"
      by (subst sb) simp
    then show ?thesis by (simp only: c4)
  qed
  show "events (store_block a out s) = events s @ [FWrite (nat a) 7, FWrite (nat a + 7) (length out)]"
    by (subst sb) (simp add: e3 st_fwrite_def w(2))
  show "mapbuf (store_block a out s) = ?mb"
    by (subst sb) (simp add: m3 st_fwrite_def)
qed

subsection \<open>Runs in which every cell has a block of the same length\<close>

lemma run_cells_append:
  "run_cells w resolution num_threads (xs @ ys) s =
     (case run_cells w resolution num_threads xs s of
        Inl e \<Rightarrow> Inl e
      | Inr s1 \<Rightarrow> run_cells w resolution num_threads ys s1)"
  by (induction xs arbitrary: s) (simp_all split: sum.splits)

lemma block_world_step:
  assumes u: "\<And>n. SHPOpen w n = Some [point_shape]" "\<And>lat lon. find_shp w lat lon = Some 0"
      "\<And>p lat lon. cell_compress w resolution num_threads p lat lon = (0, out)"
    and v: "valid_cell c"
    and l: "data_start \<le> length (content (ofp s))" "length (content (ofp s)) < 2 ^ 31"
    and m: "length (mapbuf s) = 7"
  shows "\<exists>s'. process_cell w resolution num_threads c s = Inr s' \<and>
              length (content (ofp s')) = length (content (ofp s)) + length out \<and>
              length (mapbuf s') = 7"
proof -
  have vx: "valid_cell (fst c, snd c)" using v by simp
  have z: "fst (cell_compress w resolution num_threads (no_polys\<lparr>num_poly := 0\<rparr>) (fst c) (snd c)) = 0"
    by (simp add: u(3))
  note e = shape_cell_effect[OF vx u(1) load_point_shape z l m]
  let ?s' = "store_block (map_address_of (fst c) (snd c)) out (cell_log resolution num_threads s)"
  have a: "nat (map_address_of (fst c) (snd c)) + 7 \<le> length (content (ofp s))"
    using map_address_valid[OF v] l(1) by (simp add: data_start_def)
  have p: "process_cell w resolution num_threads c s = Inr ?s'"
    using e(1) by (simp add: process_cell_def u(2) u(3))
  have "length (content (ofp ?s')) = length (content (ofp s)) + length out"
    using e(2) a m by (simp add: u(3) length_block_record)
  moreover have "length (mapbuf ?s') = 7" using e(4) m by (simp add: u(3) length_block_record)
  ultimately show ?thesis using p by blast
qed

lemma block_world_run:
  assumes u: "\<And>n. SHPOpen w n = Some [point_shape]" "\<And>lat lon. find_shp w lat lon = Some 0"
      "\<And>p lat lon. cell_compress w resolution num_threads p lat lon = (0, out)"
    and "\<forall>c\<in>set cs. valid_cell c"
    and "data_start \<le> length (content (ofp s))"
    and "cs \<noteq> [] \<longrightarrow> length (content (ofp s)) + length out * (length cs - 1) < 2 ^ 31"
    and "length (mapbuf s) = 7"
  shows "\<exists>s'. run_cells w resolution num_threads cs s = Inr s' \<and>
              length (content (ofp s')) = length (content (ofp s)) + length out * length cs \<and>
              length (mapbuf s') = 7"
  using assms(4-)
proof (induction cs arbitrary: s)
  case Nil
  then show ?case by simp
next
  case (Cons c cs)
  have lt: "length (content (ofp s)) < 2 ^ 31"
  proof -
    have "length (content (ofp s)) \<le> length (content (ofp s)) + length out * (length (c # cs) - 1)"
      by simp
    then show ?thesis using Cons.prems(3) by simp
  qed
  have v: "valid_cell c" using Cons.prems(1) by simp
  obtain s1 where s1: "process_cell w resolution num_threads c s = Inr s1"
      "length (content (ofp s1)) = length (content (ofp s)) + length out" "length (mapbuf s1) = 7"
    using block_world_step[OF u v Cons.prems(2) lt Cons.prems(4)] by blast
  have b: "cs \<noteq> [] \<longrightarrow> length (content (ofp s1)) + length out * (length cs - 1) < 2 ^ 31"
  proof
    assume ne: "cs \<noteq> []"
    then obtain k where k: "length cs = Suc k" by (cases cs) auto
    have "length (content (ofp s1)) + length out * (length cs - 1) =
          length (content (ofp s)) + length out * (length (c # cs) - 1)"
      using s1(2) k by simp
    then show "length (content (ofp s1)) + length out * (length cs - 1) < 2 ^ 31"
      using Cons.prems(3) by simp
  qed
  obtain s' where s': "run_cells w resolution num_threads cs s1 = Inr s'"
      "length (content (ofp s')) = length (content (ofp s1)) + length out * length cs"
      "length (mapbuf s') = 7"
    using Cons.IH[OF _ _ b s1(3)] Cons.prems(1,2) s1(2) by auto
  show ?case using s1 s' by simp
qed

subsection \<open>Full runs of the examples\<close>

lemma length_dec_values:
  "length (dec 16384) = 5" "length (dec 60) = 2" "length (dec (Suc 0)) = 1"
  by (simp_all add: dec.simps)

lemma header_with_shapes_short:
  "length (header_text world_with_shapes 60) \<le> 16384"
  by (simp add: header_text_def world_with_shapes_def SWBD_MASK_HEADER_SIZE_def
      length_dec_values)

lemma sscanf_d_values: "sscanf_d ''60'' = Some 60" "sscanf_d ''1'' = Some 1"
  by (simp_all add: sscanf_d_def scan_unsigned_def is_space_def is_digit_def digits_value_def
      strtol_range_def to_int32_id)

lemma check_args_examples:
  "check_args world_with_shapes [''swbd_mask'', ''60''] = Inr (60, 4)"
  by (simp add: check_args_def resolution_arg_def num_threads_arg_def sscanf_d_values
      world_with_shapes_def)

lemma main_examples:
  "main world_with_shapes [''swbd_mask'', ''60''] =
     run_cells world_with_shapes 60 4 cells
       (write_empty_map (write_header world_with_shapes 60 initial_state))"
  by (simp add: main_def check_args_examples) (simp add: world_with_shapes_def)

lemma main_with_shapes:
  "\<exists>s. main world_with_shapes [''swbd_mask'', ''60''] = Inr s \<and>
       length (content (ofp s)) = 664384"
proof -
  let ?s0 = "write_empty_map (write_header world_with_shapes 60 initial_state)"
  note st = start_state[of world_with_shapes 60]
  have l0: "length (content (ofp ?s0)) = data_start" by (rule st(3)[OF header_with_shapes_short(1)])
  have "\<exists>s'. run_cells world_with_shapes 60 4 cells ?s0 = Inr s' \<and>
          length (content (ofp s')) = length (content (ofp ?s0)) + length [120::byte, 218, 1] * length cells \<and>
          length (mapbuf s') = 7"
  proof (rule block_world_run)
    show "\<And>n. SHPOpen world_with_shapes n = Some [point_shape]" by (rule world_with_shapes_fields(1))
    show "\<And>lat lon. find_shp world_with_shapes lat lon = Some 0" by (rule find_shp_with_shapes)
    show "\<And>p lat lon. cell_compress world_with_shapes 60 4 p lat lon = (0, [120, 218, 1])"
      by (rule cell_compress_with_shapes)
    show "\<forall>c\<in>set cells. valid_cell c" by (simp add: set_cells)
    show "data_start \<le> length (content (ofp ?s0))" by (rule st(1))
    show "cells \<noteq> [] \<longrightarrow>
        length (content (ofp ?s0)) + length [120::byte, 218, 1] * (length cells - 1) < 2 ^ 31"
      by (simp add: l0 length_cells data_start_def)
    show "length (mapbuf ?s0) = 7" by (rule st(2))
  qed
  then obtain s' where "run_cells world_with_shapes 60 4 cells ?s0 = Inr s'"
      "length (content (ofp s')) = length (content (ofp ?s0)) + length [120::byte, 218, 1] * length cells"
    by blast
  then have "main world_with_shapes [''swbd_mask'', ''60''] = Inr s' \<and>
       length (content (ofp s')) = 664384"
    by (simp add: main_examples l0 length_cells data_start_def)
  then show ?thesis by blast
qed

subsection \<open>The order of the cells and the address of a record\<close>

lemma cells_nth:
  assumes "k < 64800"
  shows "cells ! k = (int (k div 360) - 90, int (k mod 360) - 180)"
proof -
  have d: "k div 360 < 180" using assms by simp
  have m: "k mod 360 < 360" by simp
  have "cells ! k = ([-90 .. 89] ! (k div length [-180 .. 179::int]),
                     [-180 .. 179] ! (k mod length [-180 .. 179::int]))"
    unfolding cells_def using assms by (intro product_nth) (simp only: length_upto, simp)
  then have "cells ! k = ([-90 .. 89] ! (k div 360), [-180 .. 179] ! (k mod 360))"
    by (simp only: length_upto) simp
  moreover have "[-90 .. 89::int] ! (k div 360) = -90 + int (k div 360)"
    using d by (intro nth_upto) linarith
  moreover have "[-180 .. 179::int] ! (k mod 360) = -180 + int (k mod 360)"
    using m by (intro nth_upto) linarith
  ultimately show ?thesis by simp
qed

lemma cells_nth_address:
  assumes "k < 64800"
  shows "map_address_of (fst (cells ! k)) (snd (cells ! k)) = 16384 + 7 * int k"
proof -
  have v: "valid_cell (cells ! k)" using assms set_cells[of "cells ! k"] by (simp add: length_cells)
  have e: "int (k div 360) * 360 + int (k mod 360) = int k"
    by (metis div_mult_mod_eq of_nat_add of_nat_mult of_nat_numeral)
  have "map_address_of (fst (cells ! k)) (snd (cells ! k)) =
        16384 + ((fst (cells ! k) + 90) * 360 + (snd (cells ! k) + 180)) * 7"
    by (rule map_address_valid(1)[OF v])
  also have "\<dots> = 16384 + (int (k div 360) * 360 + int (k mod 360)) * 7"
    by (simp add: cells_nth[OF assms])
  finally show ?thesis by (simp add: e)
qed

lemma store_block_record_write:
  assumes "0 \<le> a" "length (mapbuf s) = 7"
  shows "\<exists>p. events (store_block a out s) = events s @ [FWrite (nat a) 7, FWrite p (length out)]"
  using assms
  by (simp add: store_block_def Let_def write_mapbuf_def st_fwrite_def st_fseek_set_def
      st_fseek_end_def fseek_set_def length_bit_pack)

lemma no_file_cell_record_write:
  assumes "0 \<le> map_address_of lat lon"
  shows "FWrite (nat (map_address_of lat lon)) 7 \<in>
           set (drop (length (events s)) (events (no_file_cell w lat lon s)))"
  using assms
  by (simp add: no_file_cell_def Let_def write_mapbuf_def st_fwrite_def st_fseek_set_def
      st_event_def fseek_set_def length_bit_pack)

lemma process_cell_record_write:
  assumes v: "valid_cell c" and m: "length (mapbuf s) = 7"
    and p: "process_cell w resolution num_threads c s = Inr s'"
  shows "FWrite (nat (map_address_of (fst c) (snd c))) 7 \<in> set (drop (length (events s)) (events s'))"
proof (cases "find_shp w (fst c) (snd c)")
  case None
  then have "s' = no_file_cell w (fst c) (snd c) s" using p by (simp add: process_cell_def)
  then show ?thesis using no_file_cell_record_write map_address_valid(2)[OF v] by simp
next
  case (Some ext)
  then have "shape_cell w resolution num_threads (fst c) (snd c) ext s = Inr s'"
    using p by (simp add: process_cell_def)
  then obtain out where s': "s' = store_block (map_address_of (fst c) (snd c)) out
      (cell_log resolution num_threads s)"
    by (auto simp: shape_cell_def cell_log_def Let_def split: option.splits sum.splits prod.splits if_splits)
  have a: "0 \<le> map_address_of (fst c) (snd c)" using map_address_valid(2)[OF v] by simp
  have m': "length (mapbuf (cell_log resolution num_threads s)) = 7" using m by (simp add: cell_log_fields)
  obtain q where "events s' = events (cell_log resolution num_threads s) @
      [FWrite (nat (map_address_of (fst c) (snd c))) 7, FWrite q (length out)]"
    unfolding s' using store_block_record_write[OF a m'] by blast
  then show ?thesis by (simp add: cell_log_fields)
qed

subsection \<open>The compressor and the room it is given\<close>

lemma compress2_ok:
  assumes "fst (compress2 w cap source level) = 0"
  shows "length (snd (compress2 w cap source level)) \<le> cap"
    and "snd (compress2 w cap source level) \<noteq> []"
    and "snd (compress2 w cap source level) = zlib_header @ snd (deflate w source level)"
  using assms
  by (auto simp: compress2_def Let_def Z_OK_def Z_BUF_ERROR_def zlib_header_def
           split: prod.splits if_splits)

lemma compress2_status:
  "fst (compress2 w cap source level) \<noteq> 0 \<longleftrightarrow>
     fst (deflate w source level) \<noteq> 0 \<or>
     cap < length (zlib_header @ snd (deflate w source level))"
  by (auto simp: compress2_def Let_def Z_OK_def Z_BUF_ERROR_def zlib_header_def
           split: prod.splits if_splits)

lemma cell_compress_ok:
  assumes "resolution \<in> {1, 3, 10, 30, 60}"
    and "fst (cell_compress w resolution num_threads p lat lon) = 0"
  shows "length (snd (cell_compress w resolution num_threads p lat lon)) \<le> 1782100"
    and "snd (cell_compress w resolution num_threads p lat lon) \<noteq> []"
    and "snd (cell_compress w resolution num_threads p lat lon) =
           zlib_header @ snd (deflate w (cell_bit_block w resolution num_threads p lat lon) 9)"
proof -
  have z: "fst (compress2 w (out_buf_size (bit_block_size (3600 div resolution)))
             (cell_bit_block w resolution num_threads p lat lon) 9) = 0"
    using assms(2) by (simp add: cell_compress_def)
  show "length (snd (cell_compress w resolution num_threads p lat lon)) \<le> 1782100"
    using compress2_ok(1)[OF z] out_buf_size_valid[OF assms(1)]
    by (simp add: cell_compress_def)
  show "snd (cell_compress w resolution num_threads p lat lon) \<noteq> []"
    using compress2_ok(2)[OF z] by (simp add: cell_compress_def)
  show "snd (cell_compress w resolution num_threads p lat lon) =
           zlib_header @ snd (deflate w (cell_bit_block w resolution num_threads p lat lon) 9)"
    using compress2_ok(3)[OF z] by (simp add: cell_compress_def)
qed

lemma cell_compress_long_stream:
  assumes "resolution \<in> {1, 3, 10, 30, 60}"
    and "16777215 < length (zlib_header @ snd (deflate w (cell_bit_block w resolution num_threads p lat lon) 9))"
  shows "fst (cell_compress w resolution num_threads p lat lon) \<noteq> 0"
proof -
  have "out_buf_size (bit_block_size (3600 div resolution)) <
        length (zlib_header @ snd (deflate w (cell_bit_block w resolution num_threads p lat lon) 9))"
    using out_buf_size_valid[OF assms(1)] assms(2) by linarith
  then show ?thesis unfolding cell_compress_def compress2_status by blast
qed

subsection \<open>The states main reaches between two cells\<close>

lemma store_block_mapbuf:
  "mapbuf (store_block a out s) = block_record (mapbuf s) (length (content (ofp s))) (length out)"
  by (simp add: store_block_def Let_def write_mapbuf_def st_fwrite_def st_fseek_set_def
      st_fseek_end_def fseek_end_def ftell_def block_record_def)

lemma process_cell_mapbuf:
  assumes "process_cell w resolution num_threads c s = Inr s'" "length (mapbuf s) = 7"
  shows "length (mapbuf s') = 7"
proof (cases "find_shp w (fst c) (snd c)")
  case None
  then have "s' = no_file_cell w (fst c) (snd c) s" using assms(1) by (simp add: process_cell_def)
  then show ?thesis
    by (simp add: no_file_cell_def Let_def write_mapbuf_def st_fwrite_def st_fseek_set_def
        st_event_def length_bit_pack)
next
  case (Some ext)
  then have "shape_cell w resolution num_threads (fst c) (snd c) ext s = Inr s'"
    using assms(1) by (simp add: process_cell_def)
  then obtain out where s': "s' = store_block (map_address_of (fst c) (snd c)) out
      (cell_log resolution num_threads s)"
    by (auto simp: shape_cell_def cell_log_def Let_def split: option.splits sum.splits prod.splits if_splits)
  show ?thesis unfolding s' store_block_mapbuf using assms(2)
    by (simp add: length_block_record cell_log_fields)
qed

lemma run_cells_state:
  assumes "run_cells w resolution num_threads cs s = Inr s'"
    and "data_start \<le> length (content (ofp s))" and "length (mapbuf s) = 7"
  shows "data_start \<le> length (content (ofp s'))" and "length (mapbuf s') = 7"
proof -
  show "data_start \<le> length (content (ofp s'))"
    using run_cells_length_mono[OF assms(1)] assms(2) by linarith
  show "length (mapbuf s') = 7"
    using assms(1,3)
  proof (induction cs arbitrary: s)
    case Nil
    then show ?case by simp
  next
    case (Cons c cs)
    then obtain s1 where s1: "process_cell w resolution num_threads c s = Inr s1"
        "run_cells w resolution num_threads cs s1 = Inr s'"
      by (auto split: sum.splits)
    show ?case using Cons.IH[OF s1(2) process_cell_mapbuf[OF s1(1) Cons.prems(2)]] .
  qed
qed

text \<open>
  Every state main reaches between two cells holds the header and the directory in its
  file and seven bytes in \<open>mapbuf\<close>.
\<close>

lemma main_loop_state:
  assumes "run_cells w resolution num_threads cs
             (write_empty_map (write_header w resolution initial_state)) = Inr s"
  shows "data_start \<le> length (content (ofp s))" and "length (mapbuf s) = 7"
  using run_cells_state[OF assms start_state(1) start_state(2)] by simp_all

subsection \<open>The record and the block, whatever the length of the file\<close>

text \<open>
  The record and the block of a cell with a shape file, whatever the length of the file
  below \<open>2\<^sup>3\<^sup>2\<close> bytes: the record reads the former end of the file and the compressed
  length; the block stands at the former end of a file shorter than \<open>2\<^sup>3\<^sup>1\<close> bytes, and
  behind the record in a longer file, which does not grow.
\<close>

lemma shape_cell_record:
  assumes v: "valid_cell (lat, lon)"
    and r: "resolution \<in> {1, 3, 10, 30, 60}"
    and z: "fst (cell_compress w resolution num_threads p lat lon) = 0"
    and l: "data_start \<le> length (content (ofp s))" "length (content (ofp s)) < 2 ^ 32"
    and m: "length (mapbuf s) = 7"
  defines "out \<equiv> snd (cell_compress w resolution num_threads p lat lon)"
  defines "s' \<equiv> store_block (map_address_of lat lon) out (cell_log resolution num_threads s)"
  shows "record_code (content (ofp s')) (lat, lon) = length (content (ofp s))"
    and "record_size (content (ofp s')) (lat, lon) = length out"
    and "length (content (ofp s)) < 2 ^ 31 \<Longrightarrow>
           length (content (ofp s')) = length (content (ofp s)) + length out \<and>
           take (length out) (drop (length (content (ofp s))) (content (ofp s'))) = out"
    and "2 ^ 31 \<le> length (content (ofp s)) \<Longrightarrow>
           length (content (ofp s')) = length (content (ofp s)) \<and>
           take (length out) (drop (nat (map_address_of lat lon) + 7) (content (ofp s'))) = out \<and>
           events s' = events (cell_log resolution num_threads s) @
             [FWrite (nat (map_address_of lat lon)) 7,
              FWrite (nat (map_address_of lat lon) + 7) (length out)]"
proof -
  let ?a = "map_address_of lat lon"
  let ?s = "cell_log resolution num_threads s"
  let ?f = "content (ofp s)"
  let ?mb = "block_record (mapbuf s) (length ?f) (length out)"
  have lo: "length out \<le> 1782100" unfolding out_def by (rule cell_compress_ok(1)[OF r z])
  then have lt: "length out < 2 ^ 24" by simp
  have md: "length out mod 2 ^ 24 = length out" using lt by simp
  have lmb: "length ?mb = 7" using m by (simp add: length_block_record)
  have a: "0 \<le> ?a" "nat ?a + 7 \<le> length ?f"
    using map_address_valid[OF v] l(1) by (simp_all add: data_start_def)
  have m': "length (mapbuf ?s) = 7" using m by (simp add: cell_log_fields)
  have low: "record_code (content (ofp s')) (lat, lon) = length ?f \<and>
             record_size (content (ofp s')) (lat, lon) = length out \<and>
             length (content (ofp s')) = length ?f + length out \<and>
             take (length out) (drop (length ?f) (content (ofp s'))) = out"
    if lt31: "length ?f < 2 ^ 31"
  proof -
    have a': "nat ?a + 7 \<le> length (content (ofp ?s))" using a(2) by (simp add: cell_log_fields)
    have l': "length (content (ofp ?s)) < 2 ^ 31" using lt31 by (simp add: cell_log_fields)
    note e = store_block_effect[OF a(1) a' m' l', of out]
    have cont: "content (ofp s') = take (nat ?a) ?f @ ?mb @ drop (nat ?a + 7) ?f @ out"
      unfolding s'_def using e(1) by (simp add: cell_log_fields)
    note sr = stored_record[OF v l(1) lt31 m, of "length out" out]
    have "length (content (ofp s')) = length ?f + length out"
      unfolding cont using a(2) lmb by simp
    moreover have "take (length out) (drop (length ?f) (content (ofp s'))) = out"
      unfolding cont by (rule stored_block[OF a(2) lmb])
    ultimately show ?thesis unfolding cont using sr md by simp
  qed
  have high: "record_code (content (ofp s')) (lat, lon) = length ?f \<and>
             record_size (content (ofp s')) (lat, lon) = length out \<and>
             length (content (ofp s')) = length ?f \<and>
             take (length out) (drop (nat ?a + 7) (content (ofp s'))) = out \<and>
             events s' = events ?s @ [FWrite (nat ?a) 7, FWrite (nat ?a + 7) (length out)]"
    if ge31: "2 ^ 31 \<le> length ?f"
  proof -
    have "nat ?a + 7 \<le> 469984" using map_address_valid(3)[OF v] a(1) by simp
    then have la: "nat ?a + 7 + length out \<le> length ?f" using lo ge31 by simp
    then have a': "nat ?a + 7 + length out \<le> length (content (ofp ?s))"
      by (simp add: cell_log_fields)
    have l': "2 ^ 31 \<le> length (content (ofp ?s))" "length (content (ofp ?s)) < 2 ^ 32"
      using ge31 l(2) by (simp_all add: cell_log_fields)
    note e = store_block_overflow[OF a(1) a' m' l']
    have cont: "content (ofp s') = take (nat ?a) ?f @ ?mb @ out @ drop (nat ?a + 7 + length out) ?f"
      unfolding s'_def using e(1) by (simp add: cell_log_fields)
    have len: "length (content (ofp s')) = length ?f" unfolding cont using la lmb by simp
    have rb: "record_bytes (content (ofp s')) (lat, lon) = ?mb"
      unfolding cont record_bytes_def using la lmb by simp
    have code: "record_code (content (ofp s')) (lat, lon) = length ?f"
      unfolding record_code_def rb by (rule block_record_code_high[OF m ge31 l(2)])
    have size: "record_size (content (ofp s')) (lat, lon) = length out"
      unfolding record_size_def rb using block_record_size[OF m, of "length ?f" "length out"] md
      by simp
    have "length (take (nat ?a) ?f @ ?mb) = nat ?a + 7" using la lmb by simp
    then have "drop (nat ?a + 7) ((take (nat ?a) ?f @ ?mb) @ out @ drop (nat ?a + 7 + length out) ?f) =
               out @ drop (nat ?a + 7 + length out) ?f"
      by (metis append_eq_conv_conj)
    then have blk: "take (length out) (drop (nat ?a + 7) (content (ofp s'))) = out"
      unfolding cont by simp
    have ev: "events s' = events ?s @ [FWrite (nat ?a) 7, FWrite (nat ?a + 7) (length out)]"
      unfolding s'_def by (rule e(2))
    show ?thesis using code size len blk ev by blast
  qed
  show "record_code (content (ofp s')) (lat, lon) = length (content (ofp s))"
    using low high by (cases "length ?f < 2 ^ 31") simp_all
  show "record_size (content (ofp s')) (lat, lon) = length out"
    using low high by (cases "length ?f < 2 ^ 31") simp_all
  show "length (content (ofp s)) < 2 ^ 31 \<Longrightarrow>
           length (content (ofp s')) = length (content (ofp s)) + length out \<and>
           take (length out) (drop (length (content (ofp s))) (content (ofp s'))) = out"
    using low by simp
  show "2 ^ 31 \<le> length (content (ofp s)) \<Longrightarrow>
           length (content (ofp s')) = length (content (ofp s)) \<and>
           take (length out) (drop (nat (map_address_of lat lon) + 7) (content (ofp s'))) = out \<and>
           events s' = events (cell_log resolution num_threads s) @
             [FWrite (nat (map_address_of lat lon)) 7,
              FWrite (nat (map_address_of lat lon) + 7) (length out)]"
    using high by simp
qed

subsection \<open>A run that fails at a cell\<close>

lemma run_cells_abort:
  assumes "run_cells w resolution num_threads cs s0 = Inr s"
    and "process_cell w resolution num_threads c s = Inl e"
  shows "run_cells w resolution num_threads (cs @ c # rest) s0 = Inl e"
  using assms by (simp add: run_cells_append)

subsection \<open>A cell with a shape file never gets a code of 0, 1 or 2\<close>

lemma long_file_state_fields:
  "length (content (ofp long_file_state)) = 2147483648"
  "length (mapbuf long_file_state) = 7"
  "events long_file_state = []"
  by (simp_all only: long_file_state_def state.simps ofile.simps length_replicate)

text \<open>
  Claim C10. For a cell with a shape file, at a resolution of 1, 3, 10, 30 or 60 with 4 or
  16 workers, when the run is not aborted at the cell (the file opens, the polygons are
  read, compress2 reports status 0), in an output file that holds the header and the
  directory and whose length fits 32 bits, with the seven bytes of \<open>mapbuf\<close> (as in every
  state the loop of main reaches): the record of the cell reads the former end of the file
  as its code, which is none of 0, 1, 2, and the compressed length as its size, which is
  not 0. When every shape of the file has fewer than 2 vertices no polygon is
  read, the count of every sample is 0, the block of the cell is land everywhere, and it
  is the packed all-land block that is compressed and stored. In a file shorter than
  \<open>2\<^sup>3\<^sup>1\<close> bytes the compressed block stands at the code of the record. In a file of
  \<open>2\<^sup>3\<^sup>1\<close> bytes or more it does not: \<open>block_address\<close> is negative, the seek to it fails,
  the block is written behind the record, over the records that follow it, and no byte of
  the file stands at the code of the record.
\<close>

theorem shape_file_cell_record:
  assumes "resolution \<in> {1, 3, 10, 30, 60}" and "num_threads \<in> {4, 16}"
    and "valid_cell (lat, lon)"
    and "find_shp w lat lon = Some file_ext"
    and "SHPOpen w (shpname_of lat lon file_ext) = Some shapes" and "load_polys shapes = Inr p"
    and "fst (cell_compress w resolution num_threads p lat lon) = 0"
    and "data_start \<le> length (content (ofp s))" and "length (content (ofp s)) < 2 ^ 32"
    and "length (mapbuf s) = 7"
  shows "(let out_buf = snd (cell_compress w resolution num_threads p lat lon);
              s' = store_block (map_address_of lat lon) out_buf (cell_log resolution num_threads s)
          in process_cell w resolution num_threads (lat, lon) s = Inr s' \<and>
             record_code (content (ofp s')) (lat, lon) = length (content (ofp s)) \<and>
             record_code (content (ofp s')) (lat, lon) \<notin> {0, 1, 2} \<and>
             record_size (content (ofp s')) (lat, lon) = length out_buf \<and>
             record_size (content (ofp s')) (lat, lon) \<noteq> 0 \<and>
             ((\<forall>sh\<in>set shapes. nVertices sh < 2) \<longrightarrow>
                num_poly p = 0 \<and>
                (\<forall>slon slat. inside_count_of (inside_polygon2 w)
                     (mask_params_of resolution p lat lon num_threads 0) slon slat = 0) \<and>
                fst (compute_mask w resolution num_threads p lat lon) =
                  replicate (nat (point_count_of resolution * point_count_of resolution)) NVTrue \<and>
                out_buf =
                  snd (compress2 w (out_buf_size (bit_block_size (3600 div resolution)))
                        (pack_block
                           (replicate (nat (point_count_of resolution * point_count_of resolution)) NVTrue)
                           (3600 div resolution)) 9)) \<and>
             (length (content (ofp s)) < 2 ^ 31 \<longrightarrow>
                take (record_size (content (ofp s')) (lat, lon))
                  (drop (record_code (content (ofp s')) (lat, lon)) (content (ofp s'))) = out_buf) \<and>
             (2 ^ 31 \<le> length (content (ofp s)) \<longrightarrow>
                drop (record_code (content (ofp s')) (lat, lon)) (content (ofp s')) = [] \<and>
                take (length out_buf)
                  (drop (nat (map_address_of lat lon) + 7) (content (ofp s'))) = out_buf \<and>
                events s' = events (cell_log resolution num_threads s) @
                  [FWrite (nat (map_address_of lat lon)) 7,
                   FWrite (nat (map_address_of lat lon) + 7) (length out_buf)]))"
proof -
  let ?out = "snd (cell_compress w resolution num_threads p lat lon)"
  let ?s' = "store_block (map_address_of lat lon) ?out (cell_log resolution num_threads s)"
  have pr: "process_cell w resolution num_threads (lat, lon) s = Inr ?s'"
    using assms(4,7) shape_cell_unfold[OF assms(5,6)] by (simp add: process_cell_def)
  note c = shape_cell_record[OF assms(3,1,7,8,9,10)]
  note k = cell_compress_ok[OF assms(1,7)]
  have nosent: "record_code (content (ofp ?s')) (lat, lon) \<notin> {0, 1, 2}"
  proof -
    have "2 < length (content (ofp s))" using assms(8) by (simp add: data_start_def)
    then show ?thesis unfolding c(1) by auto
  qed
  have ne: "record_size (content (ofp ?s')) (lat, lon) \<noteq> 0"
    unfolding c(2) using k(2) by simp
  have low: "take (record_size (content (ofp ?s')) (lat, lon))
                  (drop (record_code (content (ofp ?s')) (lat, lon)) (content (ofp ?s'))) = ?out"
    if "length (content (ofp s)) < 2 ^ 31"
    unfolding c(1) c(2) using c(3)[OF that] by simp
  have high: "drop (record_code (content (ofp ?s')) (lat, lon)) (content (ofp ?s')) = [] \<and>
      take (length ?out) (drop (nat (map_address_of lat lon) + 7) (content (ofp ?s'))) = ?out \<and>
      events ?s' = events (cell_log resolution num_threads s) @
        [FWrite (nat (map_address_of lat lon)) 7,
         FWrite (nat (map_address_of lat lon) + 7) (length ?out)]"
    if "2 ^ 31 \<le> length (content (ofp s))"
    unfolding c(1) using c(4)[OF that] by simp
  have empty: "num_poly p = 0 \<and>
      (\<forall>slon slat. inside_count_of (inside_polygon2 w)
           (mask_params_of resolution p lat lon num_threads 0) slon slat = 0) \<and>
      fst (compute_mask w resolution num_threads p lat lon) =
        replicate (nat (point_count_of resolution * point_count_of resolution)) NVTrue \<and>
      ?out = snd (compress2 w (out_buf_size (bit_block_size (3600 div resolution)))
                  (pack_block
                     (replicate (nat (point_count_of resolution * point_count_of resolution)) NVTrue)
                     (3600 div resolution)) 9)"
    if sm: "\<forall>sh\<in>set shapes. nVertices sh < 2"
  proof -
    have "p = no_polys\<lparr>num_poly := 0\<rparr>" using load_polys_small[OF sm] assms(6) by simp
    then have n: "num_poly p = 0" by simp
    have m: "fst (compute_mask w resolution num_threads p lat lon) =
        replicate (nat (point_count_of resolution * point_count_of resolution)) NVTrue"
      by (rule compute_mask_no_polys[OF assms(1,2) n])
    have cnt: "\<forall>slon slat. inside_count_of (inside_polygon2 w)
           (mask_params_of resolution p lat lon num_threads 0) slon slat = 0"
      by (simp add: inside_count_no_polys mask_params_of_fields n)
    show ?thesis using n m cnt by (simp add: cell_compress_def cell_bit_block_def)
  qed
  show ?thesis
    unfolding Let_def using pr c(1) nosent c(2) ne empty low high by simp
qed

theorem shape_file_cell_record_witness:
  "process_cell world_with_shapes 60 4 (0, 0) empty_map_state =
     Inr (store_block 244444 [120, 218, 1] (cell_log 60 4 empty_map_state)) \<and>
   record_code (content (ofp (store_block 244444 [120, 218, 1] (cell_log 60 4 empty_map_state))))
     (0, 0) = 469984 \<and>
   record_size (content (ofp (store_block 244444 [120, 218, 1] (cell_log 60 4 empty_map_state))))
     (0, 0) = 3 \<and>
   take 3 (drop 469984
     (content (ofp (store_block 244444 [120, 218, 1] (cell_log 60 4 empty_map_state))))) =
     [120, 218, 1] \<and>
   fst (compute_mask world_with_shapes 60 4 (no_polys\<lparr>num_poly := 0\<rparr>) 0 0) =
     replicate 3600 NVTrue \<and>
   process_cell world_with_shapes 60 4 (0, 0) long_file_state =
     Inr (store_block 244444 [120, 218, 1] (cell_log 60 4 long_file_state)) \<and>
   record_code (content (ofp (store_block 244444 [120, 218, 1] (cell_log 60 4 long_file_state))))
     (0, 0) = 2147483648 \<and>
   drop 2147483648
     (content (ofp (store_block 244444 [120, 218, 1] (cell_log 60 4 long_file_state)))) = [] \<and>
   take 3 (drop 244451
     (content (ofp (store_block 244444 [120, 218, 1] (cell_log 60 4 long_file_state))))) =
     [120, 218, 1]"
proof -
  have r: "(60::int) \<in> {1, 3, 10, 30, 60}" "(4::int) \<in> {4, 16}" by simp_all
  have v: "valid_cell (0, 0)" by (simp add: valid_cell_def)
  have z: "fst (cell_compress world_with_shapes 60 4 (no_polys\<lparr>num_poly := 0\<rparr>) 0 0) = 0"
    by (simp add: cell_compress_with_shapes)
  have l: "data_start \<le> length (content (ofp empty_map_state))"
      "length (content (ofp empty_map_state)) < 2 ^ 32"
    by (simp_all add: empty_map_state_fields data_start_def)
  have l31: "(469984::nat) < 2 ^ 31" by simp
  have sm: "\<forall>sh\<in>set [point_shape]. nVertices sh < 2" by (simp add: point_shape_def)
  note t = shape_file_cell_record[OF r v find_shp_with_shapes
      world_with_shapes_fields(1) load_point_shape z l empty_map_state_fields(2)]
  have t': "process_cell world_with_shapes 60 4 (0, 0) empty_map_state =
     Inr (store_block 244444 [120, 218, 1] (cell_log 60 4 empty_map_state)) \<and>
   record_code (content (ofp (store_block 244444 [120, 218, 1] (cell_log 60 4 empty_map_state))))
     (0, 0) = 469984 \<and>
   record_size (content (ofp (store_block 244444 [120, 218, 1] (cell_log 60 4 empty_map_state))))
     (0, 0) = length [120::byte, 218, 1] \<and>
   ((\<forall>sh\<in>set [point_shape]. nVertices sh < 2) \<longrightarrow>
      fst (compute_mask world_with_shapes 60 4 (no_polys\<lparr>num_poly := 0\<rparr>) 0 0) =
        replicate (nat (point_count_of 60 * point_count_of 60)) NVTrue) \<and>
   ((469984::nat) < 2 ^ 31 \<longrightarrow>
      take (record_size (content (ofp (store_block 244444 [120, 218, 1]
                (cell_log 60 4 empty_map_state)))) (0, 0))
        (drop (record_code (content (ofp (store_block 244444 [120, 218, 1]
                (cell_log 60 4 empty_map_state)))) (0, 0))
           (content (ofp (store_block 244444 [120, 218, 1] (cell_log 60 4 empty_map_state))))) =
        [120, 218, 1])"
    using t[unfolded Let_def cell_compress_with_shapes map_address_0_0 empty_map_state_fields
        snd_conv]
    by (elim conjE) (intro conjI impI; assumption?; blast)
  have pc: "nat (point_count_of 60 * point_count_of 60) = 3600" by (simp add: point_count_of_def)
  have a: "process_cell world_with_shapes 60 4 (0, 0) empty_map_state =
     Inr (store_block 244444 [120, 218, 1] (cell_log 60 4 empty_map_state)) \<and>
   record_code (content (ofp (store_block 244444 [120, 218, 1] (cell_log 60 4 empty_map_state))))
     (0, 0) = 469984 \<and>
   record_size (content (ofp (store_block 244444 [120, 218, 1] (cell_log 60 4 empty_map_state))))
     (0, 0) = 3 \<and>
   take 3 (drop 469984
     (content (ofp (store_block 244444 [120, 218, 1] (cell_log 60 4 empty_map_state))))) =
     [120, 218, 1] \<and>
   fst (compute_mask world_with_shapes 60 4 (no_polys\<lparr>num_poly := 0\<rparr>) 0 0) =
     replicate 3600 NVTrue"
  proof -
    have c: "record_code (content (ofp (store_block 244444 [120, 218, 1] (cell_log 60 4 empty_map_state))))
       (0, 0) = 469984"
      and sz: "record_size (content (ofp (store_block 244444 [120, 218, 1] (cell_log 60 4 empty_map_state))))
       (0, 0) = 3"
      using t' by simp_all
    have "take 3 (drop 469984
       (content (ofp (store_block 244444 [120, 218, 1] (cell_log 60 4 empty_map_state))))) =
       [120, 218, 1]"
      using t' l31 unfolding c sz by blast
    then show ?thesis using t' sm by (simp add: pc)
  qed
  have h: "data_start \<le> length (content (ofp long_file_state))"
      "length (content (ofp long_file_state)) < 2 ^ 32"
    by (simp_all add: long_file_state_fields data_start_def)
  have h31: "(2::nat) ^ 31 \<le> 2147483648" by simp
  note u = shape_file_cell_record[OF r v find_shp_with_shapes
      world_with_shapes_fields(1) load_point_shape z h long_file_state_fields(2)]
  have u': "process_cell world_with_shapes 60 4 (0, 0) long_file_state =
     Inr (store_block 244444 [120, 218, 1] (cell_log 60 4 long_file_state)) \<and>
   record_code (content (ofp (store_block 244444 [120, 218, 1] (cell_log 60 4 long_file_state))))
     (0, 0) = 2147483648 \<and>
   ((2::nat) ^ 31 \<le> 2147483648 \<longrightarrow>
      drop (record_code (content (ofp (store_block 244444 [120, 218, 1]
              (cell_log 60 4 long_file_state)))) (0, 0))
        (content (ofp (store_block 244444 [120, 218, 1] (cell_log 60 4 long_file_state)))) = [] \<and>
      take (length [120::byte, 218, 1])
        (drop (nat 244444 + 7)
           (content (ofp (store_block 244444 [120, 218, 1] (cell_log 60 4 long_file_state))))) =
        [120, 218, 1])"
    using u[unfolded Let_def cell_compress_with_shapes map_address_0_0 snd_conv]
    unfolding long_file_state_fields(1)
    by (elim conjE) (intro conjI impI; assumption?; blast)
  have b: "process_cell world_with_shapes 60 4 (0, 0) long_file_state =
     Inr (store_block 244444 [120, 218, 1] (cell_log 60 4 long_file_state)) \<and>
   record_code (content (ofp (store_block 244444 [120, 218, 1] (cell_log 60 4 long_file_state))))
     (0, 0) = 2147483648 \<and>
   drop 2147483648
     (content (ofp (store_block 244444 [120, 218, 1] (cell_log 60 4 long_file_state)))) = [] \<and>
   take 3 (drop 244451
     (content (ofp (store_block 244444 [120, 218, 1] (cell_log 60 4 long_file_state))))) =
     [120, 218, 1]"
  proof -
    have c: "record_code (content (ofp (store_block 244444 [120, 218, 1] (cell_log 60 4 long_file_state))))
       (0, 0) = 2147483648"
      using u' by simp
    have n3: "length [120::byte, 218, 1] = 3" by simp
    have n7: "nat 244444 + 7 = 244451" by simp
    have "drop 2147483648
       (content (ofp (store_block 244444 [120, 218, 1] (cell_log 60 4 long_file_state)))) = [] \<and>
     take (length [120::byte, 218, 1])
        (drop (nat 244444 + 7)
           (content (ofp (store_block 244444 [120, 218, 1] (cell_log 60 4 long_file_state))))) =
        [120, 218, 1]"
      using u' h31 unfolding c by blast
    then show ?thesis using u' unfolding n3 n7 by blast
  qed
  show ?thesis using a b by blast
qed

subsection \<open>The directory invariant and its loss in a long file\<close>

text \<open>
  Claim C5. After a full run that leaves a file shorter than \<open>2\<^sup>3\<^sup>1\<close> bytes, each of the
  64800 cells has a record whose code is 0, 1 or 2, or whose block (the bytes from the
  code, as many as the size) starts behind the directory, ends inside the file and does
  not meet the block of any other cell. The invariant is lost in a file of \<open>2\<^sup>3\<^sup>1\<close> bytes
  or more (and less than \<open>2\<^sup>3\<^sup>2\<close>): a cell with a shape file is then processed without
  an error when compress2 reports status 0 (at a resolution of 1, 3, 10, 30 or 60, with
  the seven bytes of \<open>mapbuf\<close>), the file does not grow, and the record of the cell reads
  the end of the file as its code and the compressed length, which is not 0, as its size,
  so that its block does not end inside the file.
\<close>

theorem directory_invariant:
  "(main w argv = Inr s \<and> length (content (ofp s)) < 2 ^ 31 \<longrightarrow>
      length cells = 64800 \<and>
      (\<forall>c\<in>set cells.
         record_code (content (ofp s)) c \<in> {0, 1, 2} \<or>
         (data_start \<le> record_code (content (ofp s)) c \<and>
          record_code (content (ofp s)) c + record_size (content (ofp s)) c
            \<le> length (content (ofp s)) \<and>
          (\<forall>d\<in>set cells. d \<noteq> c \<and> record_code (content (ofp s)) d \<notin> {0, 1, 2} \<longrightarrow>
             record_code (content (ofp s)) c + record_size (content (ofp s)) c
               \<le> record_code (content (ofp s)) d \<or>
             record_code (content (ofp s)) d + record_size (content (ofp s)) d
               \<le> record_code (content (ofp s)) c)))) \<and>
   (resolution \<in> {1, 3, 10, 30, 60} \<and> valid_cell (lat, lon) \<and>
    find_shp w lat lon = Some file_ext \<and>
    SHPOpen w (shpname_of lat lon file_ext) = Some shapes \<and> load_polys shapes = Inr p \<and>
    fst (cell_compress w resolution num_threads p lat lon) = 0 \<and>
    2 ^ 31 \<le> length (content (ofp t)) \<and> length (content (ofp t)) < 2 ^ 32 \<and>
    length (mapbuf t) = 7 \<longrightarrow>
      (let t' = store_block (map_address_of lat lon)
                  (snd (cell_compress w resolution num_threads p lat lon))
                  (cell_log resolution num_threads t)
       in process_cell w resolution num_threads (lat, lon) t = Inr t' \<and>
          length (content (ofp t')) = length (content (ofp t)) \<and>
          record_code (content (ofp t')) (lat, lon) = length (content (ofp t)) \<and>
          record_code (content (ofp t')) (lat, lon) \<notin> {0, 1, 2} \<and>
          0 < record_size (content (ofp t')) (lat, lon) \<and>
          length (content (ofp t')) <
            record_code (content (ofp t')) (lat, lon) + record_size (content (ofp t')) (lat, lon) \<and>
          \<not> directory_ok {(lat, lon)} (content (ofp t'))))"
proof (intro conjI impI)
  assume a: "main w argv = Inr s \<and> length (content (ofp s)) < 2 ^ 31"
  show "length cells = 64800" by (rule length_cells)
  have "directory_ok (set cells) (content (ofp s))"
    using main_directory[of w argv s] a by simp
  then show "\<forall>c\<in>set cells.
         record_code (content (ofp s)) c \<in> {0, 1, 2} \<or>
         (data_start \<le> record_code (content (ofp s)) c \<and>
          record_code (content (ofp s)) c + record_size (content (ofp s)) c
            \<le> length (content (ofp s)) \<and>
          (\<forall>d\<in>set cells. d \<noteq> c \<and> record_code (content (ofp s)) d \<notin> {0, 1, 2} \<longrightarrow>
             record_code (content (ofp s)) c + record_size (content (ofp s)) c
               \<le> record_code (content (ofp s)) d \<or>
             record_code (content (ofp s)) d + record_size (content (ofp s)) d
               \<le> record_code (content (ofp s)) c))"
    unfolding directory_ok_def blocks_apart_def by simp
next
  assume h: "resolution \<in> {1, 3, 10, 30, 60} \<and> valid_cell (lat, lon) \<and>
    find_shp w lat lon = Some file_ext \<and>
    SHPOpen w (shpname_of lat lon file_ext) = Some shapes \<and> load_polys shapes = Inr p \<and>
    fst (cell_compress w resolution num_threads p lat lon) = 0 \<and>
    2 ^ 31 \<le> length (content (ofp t)) \<and> length (content (ofp t)) < 2 ^ 32 \<and>
    length (mapbuf t) = 7"
  let ?out = "snd (cell_compress w resolution num_threads p lat lon)"
  let ?t' = "store_block (map_address_of lat lon) ?out (cell_log resolution num_threads t)"
  have r: "resolution \<in> {1, 3, 10, 30, 60}" and v: "valid_cell (lat, lon)"
    and f: "find_shp w lat lon = Some file_ext"
    and o: "SHPOpen w (shpname_of lat lon file_ext) = Some shapes"
    and q: "load_polys shapes = Inr p"
    and z: "fst (cell_compress w resolution num_threads p lat lon) = 0"
    and ge: "2 ^ 31 \<le> length (content (ofp t))" and lt: "length (content (ofp t)) < 2 ^ 32"
    and m: "length (mapbuf t) = 7"
    using h by simp_all
  have ds: "data_start \<le> length (content (ofp t))" using ge by (simp add: data_start_def)
  have pr: "process_cell w resolution num_threads (lat, lon) t = Inr ?t'"
    using f z shape_cell_unfold[OF o q] by (simp add: process_cell_def)
  note c = shape_cell_record[OF v r z ds lt m]
  note k = cell_compress_ok[OF r z]
  have len: "length (content (ofp ?t')) = length (content (ofp t))" using c(4)[OF ge] by simp
  have pos: "0 < record_size (content (ofp ?t')) (lat, lon)" unfolding c(2) using k(2) by simp
  have nosent: "record_code (content (ofp ?t')) (lat, lon) \<notin> {0, 1, 2}"
  proof -
    have "2 < length (content (ofp t))" using ds by (simp add: data_start_def)
    then show ?thesis unfolding c(1) by auto
  qed
  have beyond: "length (content (ofp ?t')) <
      record_code (content (ofp ?t')) (lat, lon) + record_size (content (ofp ?t')) (lat, lon)"
    unfolding len c(1) using pos by simp
  have bad: "\<not> directory_ok {(lat, lon)} (content (ofp ?t'))"
    unfolding directory_ok_def using nosent beyond by simp
  show "(let t' = ?t'
       in process_cell w resolution num_threads (lat, lon) t = Inr t' \<and>
          length (content (ofp t')) = length (content (ofp t)) \<and>
          record_code (content (ofp t')) (lat, lon) = length (content (ofp t)) \<and>
          record_code (content (ofp t')) (lat, lon) \<notin> {0, 1, 2} \<and>
          0 < record_size (content (ofp t')) (lat, lon) \<and>
          length (content (ofp t')) <
            record_code (content (ofp t')) (lat, lon) + record_size (content (ofp t')) (lat, lon) \<and>
          \<not> directory_ok {(lat, lon)} (content (ofp t')))"
    unfolding Let_def using pr len c(1) nosent pos beyond bad by simp
qed

theorem directory_invariant_witness:
  "\<not> isl (main world_with_shapes [''swbd_mask'', ''60'']) \<and>
   length (content (ofp (projr (main world_with_shapes [''swbd_mask'', ''60''])))) = 664384 \<and>
   directory_ok (set cells) (content (ofp (projr (main world_with_shapes [''swbd_mask'', ''60''])))) \<and>
   process_cell world_with_shapes 60 4 (0, 0) long_file_state =
     Inr (store_block 244444 [120, 218, 1] (cell_log 60 4 long_file_state)) \<and>
   length (content (ofp (store_block 244444 [120, 218, 1] (cell_log 60 4 long_file_state)))) =
     2147483648 \<and>
   record_code (content (ofp (store_block 244444 [120, 218, 1] (cell_log 60 4 long_file_state))))
     (0, 0) = 2147483648 \<and>
   0 < record_size (content (ofp (store_block 244444 [120, 218, 1] (cell_log 60 4 long_file_state))))
     (0, 0) \<and>
   \<not> directory_ok {(0, 0)}
       (content (ofp (store_block 244444 [120, 218, 1] (cell_log 60 4 long_file_state))))"
proof -
  obtain s where s: "main world_with_shapes [''swbd_mask'', ''60''] = Inr s"
      "length (content (ofp s)) = 664384"
    using main_with_shapes by blast
  have lt: "length (content (ofp s)) < 2 ^ 31" using s(2) by simp
  have r: "(60::int) \<in> {1, 3, 10, 30, 60}" by simp
  have v: "valid_cell (0, 0)" by (simp add: valid_cell_def)
  have z: "fst (cell_compress world_with_shapes 60 4 (no_polys\<lparr>num_poly := 0\<rparr>) 0 0) = 0"
    by (simp add: cell_compress_with_shapes)
  have h: "(2::nat) ^ 31 \<le> length (content (ofp long_file_state))"
      "length (content (ofp long_file_state)) < 2 ^ 32"
    by (simp_all add: long_file_state_fields)
  note t = directory_invariant[of world_with_shapes "[''swbd_mask'', ''60'']" s 60 0 0 0
      "[point_shape]" "no_polys\<lparr>num_poly := 0\<rparr>" 4 long_file_state]
  have "directory_ok (set cells) (content (ofp s))"
    unfolding directory_ok_def blocks_apart_def
    using t[THEN conjunct1] s(1) lt by simp
  then have a: "\<not> isl (main world_with_shapes [''swbd_mask'', ''60'']) \<and>
   length (content (ofp (projr (main world_with_shapes [''swbd_mask'', ''60''])))) = 664384 \<and>
   directory_ok (set cells) (content (ofp (projr (main world_with_shapes [''swbd_mask'', ''60'']))))"
    using s by simp
  have pre: "(60::int) \<in> {1, 3, 10, 30, 60} \<and> valid_cell (0, 0) \<and>
    find_shp world_with_shapes 0 0 = Some 0 \<and>
    SHPOpen world_with_shapes (shpname_of 0 0 0) = Some [point_shape] \<and>
    load_polys [point_shape] = Inr (no_polys\<lparr>num_poly := 0\<rparr>) \<and>
    fst (cell_compress world_with_shapes 60 4 (no_polys\<lparr>num_poly := 0\<rparr>) 0 0) = 0 \<and>
    2 ^ 31 \<le> length (content (ofp long_file_state)) \<and>
    length (content (ofp long_file_state)) < 2 ^ 32 \<and>
    length (mapbuf long_file_state) = 7"
    using r v find_shp_with_shapes world_with_shapes_fields(1) load_point_shape z h
      long_file_state_fields(2) by simp
  note u = t[THEN conjunct2, rule_format, OF pre]
  have b: "process_cell world_with_shapes 60 4 (0, 0) long_file_state =
     Inr (store_block 244444 [120, 218, 1] (cell_log 60 4 long_file_state)) \<and>
   length (content (ofp (store_block 244444 [120, 218, 1] (cell_log 60 4 long_file_state)))) =
     2147483648 \<and>
   record_code (content (ofp (store_block 244444 [120, 218, 1] (cell_log 60 4 long_file_state))))
     (0, 0) = 2147483648 \<and>
   0 < record_size (content (ofp (store_block 244444 [120, 218, 1] (cell_log 60 4 long_file_state))))
     (0, 0) \<and>
   \<not> directory_ok {(0, 0)}
       (content (ofp (store_block 244444 [120, 218, 1] (cell_log 60 4 long_file_state))))"
    using u[unfolded Let_def cell_compress_with_shapes map_address_0_0 snd_conv
        long_file_state_fields(1)]
    by blast
  show ?thesis using a b by blast
qed

subsection \<open>The records a full run writes\<close>

lemma record_writes_workers:
  "record_writes (map (\<lambda>i. MaskStart (int i)) xs @ es) = record_writes es"
  by (induction xs) simp_all

lemma no_file_cell_log:
  assumes "0 \<le> map_address_of lat lon"
  shows "\<exists>chunk. events (no_file_cell w lat lon s) = events s @ chunk \<and>
           (\<forall>rest. record_writes (chunk @ rest) =
              (nat (map_address_of lat lon), 7) # record_writes rest)"
proof (cases "lat < -57 \<or> lat > 59")
  case True
  then have "events (no_file_cell w lat lon s) = events s @ [FWrite (nat (map_address_of lat lon)) 7]"
    using assms
    by (simp add: no_file_cell_def Let_def write_mapbuf_def st_fwrite_def st_fseek_set_def
        fseek_set_def)
  then show ?thesis by (intro exI[of _ "[FWrite (nat (map_address_of lat lon)) 7]"]) simp
next
  case False
  then have "events (no_file_cell w lat lon s) =
      events s @ [SrtmRead (real_of_int lat + 0.5) (real_of_int lon + 0.5),
                  FWrite (nat (map_address_of lat lon)) 7]"
    using assms
    by (simp add: no_file_cell_def Let_def write_mapbuf_def st_fwrite_def st_fseek_set_def
        st_event_def fseek_set_def length_bit_pack)
  then show ?thesis
    by (intro exI[of _ "[SrtmRead (real_of_int lat + 0.5) (real_of_int lon + 0.5),
                  FWrite (nat (map_address_of lat lon)) 7]"]) simp
qed

lemma process_cell_log:
  assumes v: "valid_cell c" and m: "length (mapbuf s) = 7"
    and p: "process_cell w resolution num_threads c s = Inr s'"
  shows "\<exists>chunk. events s' = events s @ chunk \<and>
           (\<forall>rest. record_writes (chunk @ rest) =
              (nat (map_address_of (fst c) (snd c)), 7) # record_writes rest)"
proof (cases "find_shp w (fst c) (snd c)")
  case None
  then have "s' = no_file_cell w (fst c) (snd c) s" using p by (simp add: process_cell_def)
  then show ?thesis using no_file_cell_log map_address_valid(2)[OF v] by simp
next
  case (Some ext)
  then have "shape_cell w resolution num_threads (fst c) (snd c) ext s = Inr s'"
    using p by (simp add: process_cell_def)
  then obtain out where s': "s' = store_block (map_address_of (fst c) (snd c)) out
      (cell_log resolution num_threads s)"
    by (auto simp: shape_cell_def cell_log_def Let_def split: option.splits sum.splits prod.splits if_splits)
  have a: "0 \<le> map_address_of (fst c) (snd c)" using map_address_valid(2)[OF v] by simp
  have m': "length (mapbuf (cell_log resolution num_threads s)) = 7" using m by (simp add: cell_log_fields)
  obtain q where q: "events s' = events (cell_log resolution num_threads s) @
      [FWrite (nat (map_address_of (fst c) (snd c))) 7, FWrite q (length out)]"
    unfolding s' using store_block_record_write[OF a m'] by blast
  let ?chunk = "map (\<lambda>i. MaskStart (int i)) [0..<nat num_threads] @
      [Compress (nat (bit_block_size (3600 div resolution))),
       FWrite (nat (map_address_of (fst c) (snd c))) 7, FWrite q (length out)]"
  have e: "events s' = events s @ ?chunk" using q by (simp add: cell_log_fields)
  have "\<forall>rest. record_writes (?chunk @ rest) =
      (nat (map_address_of (fst c) (snd c)), 7) # record_writes rest"
    by (simp add: record_writes_workers)
  then show ?thesis using e by blast
qed

lemma run_cells_log:
  assumes "run_cells w resolution num_threads cs s = Inr s'"
    and "\<forall>c\<in>set cs. valid_cell c" and "length (mapbuf s) = 7"
  shows "\<exists>tail. events s' = events s @ tail \<and>
           (\<forall>rest. record_writes (tail @ rest) =
              map (\<lambda>c. (nat (map_address_of (fst c) (snd c)), 7)) cs @ record_writes rest)"
  using assms
proof (induction cs arbitrary: s)
  case Nil
  then show ?case by simp
next
  case (Cons c cs)
  obtain s1 where s1: "process_cell w resolution num_threads c s = Inr s1"
      "run_cells w resolution num_threads cs s1 = Inr s'"
    using Cons.prems(1) by (auto split: sum.splits)
  have v: "valid_cell c" using Cons.prems(2) by simp
  obtain chunk where chunk: "events s1 = events s @ chunk"
      "\<forall>rest. record_writes (chunk @ rest) =
         (nat (map_address_of (fst c) (snd c)), 7) # record_writes rest"
    using process_cell_log[OF v Cons.prems(3) s1(1)] by blast
  have m1: "length (mapbuf s1) = 7" by (rule process_cell_mapbuf[OF s1(1) Cons.prems(3)])
  obtain tail where tail: "events s' = events s1 @ tail"
      "\<forall>rest. record_writes (tail @ rest) =
         map (\<lambda>c. (nat (map_address_of (fst c) (snd c)), 7)) cs @ record_writes rest"
    using Cons.IH[OF s1(2) _ m1] Cons.prems(2) by auto
  have "events s' = events s @ (chunk @ tail)" using chunk(1) tail(1) by simp
  moreover have "\<forall>rest. record_writes ((chunk @ tail) @ rest) =
      map (\<lambda>c. (nat (map_address_of (fst c) (snd c)), 7)) (c # cs) @ record_writes rest"
    using chunk(2) tail(2) by simp
  ultimately show ?case by blast
qed

lemma main_run:
  assumes "main w argv = Inr s"
  shows "run_cells w (resolution_arg argv) (num_threads_arg argv) cells
           (write_empty_map (write_header w (resolution_arg argv) initial_state)) = Inr s"
    and "resolution_arg argv \<in> {1, 3, 10, 30, 60}"
    and "num_threads_arg argv \<in> {4, 16}"
proof -
  obtain rn where c: "check_args w argv = Inr rn"
    using assms by (cases "check_args w argv") (simp_all add: main_def)
  have rn: "rn = (resolution_arg argv, num_threads_arg argv)"
    using c by (auto simp: check_args_def Let_def split: if_splits)
  show "resolution_arg argv \<in> {1, 3, 10, 30, 60}" "num_threads_arg argv \<in> {4, 16}"
    using c by (auto simp: check_args_def Let_def split: if_splits)
  show "run_cells w (resolution_arg argv) (num_threads_arg argv) cells
           (write_empty_map (write_header w (resolution_arg argv) initial_state)) = Inr s"
    using assms c unfolding rn by (simp add: main_def split: if_splits)
qed

lemma cells_addresses:
  "map (\<lambda>c. (nat (map_address_of (fst c) (snd c)), 7::nat)) cells =
   map (\<lambda>k. (16384 + 7 * k, 7)) [0..<length cells]"
proof (rule nth_equalityI)
  show "length (map (\<lambda>c. (nat (map_address_of (fst c) (snd c)), 7::nat)) cells) =
        length (map (\<lambda>k. (16384 + 7 * k, 7::nat)) [0..<length cells])"
    by simp
next
  fix i assume "i < length (map (\<lambda>c. (nat (map_address_of (fst c) (snd c)), 7::nat)) cells)"
  then have i: "i < length cells" by simp
  then have k: "i < 64800" by (simp add: length_cells)
  have "nat (map_address_of (fst (cells ! i)) (snd (cells ! i))) = 16384 + 7 * i"
    using cells_nth_address[OF k] by simp
  then show "map (\<lambda>c. (nat (map_address_of (fst c) (snd c)), 7::nat)) cells ! i =
        map (\<lambda>k. (16384 + 7 * k, 7)) [0..<length cells] ! i"
    using i by simp
qed

lemma main_record_writes:
  assumes "main w argv = Inr s"
  shows "record_writes
           (drop (length (events (write_empty_map (write_header w (resolution_arg argv) initial_state))))
                 (events s)) =
         map (\<lambda>k. (16384 + 7 * k, 7)) [0..<length cells]"
proof -
  let ?s0 = "write_empty_map (write_header w (resolution_arg argv) initial_state)"
  note r = main_run(1)[OF assms]
  have v: "\<forall>c\<in>set cells. valid_cell c" by (simp add: set_cells)
  obtain tail where tail: "events s = events ?s0 @ tail"
      "\<forall>rest. record_writes (tail @ rest) =
         map (\<lambda>c. (nat (map_address_of (fst c) (snd c)), 7)) cells @ record_writes rest"
    using run_cells_log[OF r v start_state(2)] by blast
  have "record_writes (tail @ []) =
         map (\<lambda>c. (nat (map_address_of (fst c) (snd c)), 7)) cells @ record_writes []"
    using tail(2) by blast
  then have "record_writes tail = map (\<lambda>c. (nat (map_address_of (fst c) (snd c)), 7)) cells"
    by simp
  moreover have "drop (length (events ?s0)) (events s) = tail" unfolding tail(1) by simp
  ultimately show ?thesis by (simp only: cells_addresses)
qed

text \<open>
  Claim C8. A full run of main writes the records of the 64800 cells in the order of the
  cells, one record of 7 bytes for each cell, the \<open>k\<close>-th (from 0) at the offset
  \<open>16384 + 7 * k\<close>: after the header and the empty directory, the writes of records in the
  log of the run are exactly these, in this order. The \<open>k\<close>-th cell has latitude
  \<open>k div 360 - 90\<close> and longitude \<open>k mod 360 - 180\<close>: latitude outside, from -90 upwards,
  longitude inside, from -180 upwards. The address of the record of a cell is
  \<open>16384 + ((lat + 90) * 360 + (lon + 180)) * 7\<close> (no 32-bit wrap-around occurs), which
  for the \<open>k\<close>-th cell is \<open>16384 + 7 * k\<close>; and whenever a cell is processed without an
  error, 7 bytes are written at that address, whatever was processed before.
\<close>

theorem cells_order_and_record_address:
  "length cells = 64800 \<and>
   (\<forall>k<64800. cells ! k = (int (k div 360) - 90, int (k mod 360) - 180) \<and>
               map_address_of (fst (cells ! k)) (snd (cells ! k)) = 16384 + 7 * int k) \<and>
   (\<forall>lat lon. valid_cell (lat, lon) \<longrightarrow>
      map_address_of lat lon = 16384 + ((lat + 90) * 360 + (lon + 180)) * 7) \<and>
   (\<forall>w resolution num_threads c s s'.
      valid_cell c \<and> length (mapbuf s) = 7 \<and>
      process_cell w resolution num_threads c s = Inr s' \<longrightarrow>
      FWrite (nat (16384 + ((fst c + 90) * 360 + (snd c + 180)) * 7)) 7
        \<in> set (drop (length (events s)) (events s'))) \<and>
   (\<forall>w argv s.
      main w argv = Inr s \<longrightarrow>
      record_writes
        (drop (length (events (write_empty_map
                                 (write_header w (resolution_arg argv) initial_state))))
              (events s)) =
      map (\<lambda>k. (16384 + 7 * k, 7)) [0..<64800])"
proof (intro conjI allI impI)
  show "length cells = 64800" by (rule length_cells)
next
  fix k :: nat assume "k < 64800"
  then show "cells ! k = (int (k div 360) - 90, int (k mod 360) - 180)" by (rule cells_nth)
next
  fix k :: nat assume "k < 64800"
  then show "map_address_of (fst (cells ! k)) (snd (cells ! k)) = 16384 + 7 * int k"
    by (rule cells_nth_address)
next
  fix lat lon :: int assume "valid_cell (lat, lon)"
  then show "map_address_of lat lon = 16384 + ((lat + 90) * 360 + (lon + 180)) * 7"
    using map_address_valid(1)[of "(lat, lon)"] by simp
next
  fix w resolution num_threads c s s'
  assume a: "valid_cell c \<and> length (mapbuf s) = 7 \<and>
      process_cell w resolution num_threads c s = Inr s'"
  then have "FWrite (nat (map_address_of (fst c) (snd c))) 7 \<in> set (drop (length (events s)) (events s'))"
    using process_cell_record_write by blast
  then show "FWrite (nat (16384 + ((fst c + 90) * 360 + (snd c + 180)) * 7)) 7
        \<in> set (drop (length (events s)) (events s'))"
    using map_address_valid(1)[of c] a by simp
next
  fix w argv s
  assume "main w argv = Inr s"
  then show "record_writes
        (drop (length (events (write_empty_map
                                 (write_header w (resolution_arg argv) initial_state))))
              (events s)) =
      map (\<lambda>k. (16384 + 7 * k, 7)) [0..<64800]"
    using main_record_writes[of w argv s] unfolding length_cells by blast
qed

lemma resolution_arg_60: "resolution_arg [''swbd_mask'', ''60''] = 60"
  by (simp add: resolution_arg_def sscanf_d_values)

theorem cells_order_and_record_address_witness:
  "cells ! 36190 = (10, 10) \<and> map_address_of 10 10 = 269714 \<and>
   FWrite 269714 7 \<in> set (drop (length (events empty_map_state))
      (events (no_file_cell world_without_shapes 10 10 empty_map_state))) \<and>
   \<not> isl (main world_with_shapes [''swbd_mask'', ''60'']) \<and>
   record_writes
     (drop (length (events (write_empty_map (write_header world_with_shapes 60 initial_state))))
           (events (projr (main world_with_shapes [''swbd_mask'', ''60''])))) =
   map (\<lambda>k. (16384 + 7 * k, 7)) [0..<64800]"
proof -
  note t = cells_order_and_record_address
  have k: "(36190::nat) < 64800" by simp
  have c: "cells ! 36190 = (10, 10)"
    using t[THEN conjunct2, THEN conjunct1, rule_format, OF k] by simp
  have v: "valid_cell (10, 10)" by (simp add: valid_cell_def)
  have a: "map_address_of 10 10 = 269714"
    using t[THEN conjunct2, THEN conjunct2, THEN conjunct1, rule_format, OF v] by simp
  have p: "process_cell world_without_shapes 60 4 (10, 10) empty_map_state =
      Inr (no_file_cell world_without_shapes 10 10 empty_map_state)"
    by (simp add: process_cell_def find_shp_without_shapes)
  have "valid_cell (10, 10) \<and> length (mapbuf empty_map_state) = 7 \<and>
      process_cell world_without_shapes 60 4 (10, 10) empty_map_state =
      Inr (no_file_cell world_without_shapes 10 10 empty_map_state)"
    using v p by (simp add: empty_map_state_fields)
  then have "FWrite (nat (16384 + ((fst (10::int, 10::int) + 90) * 360 +
                                  (snd (10::int, 10::int) + 180)) * 7)) 7
        \<in> set (drop (length (events empty_map_state))
              (events (no_file_cell world_without_shapes 10 10 empty_map_state)))"
    by (rule t[THEN conjunct2, THEN conjunct2, THEN conjunct2, THEN conjunct1, rule_format])
  then have w: "FWrite 269714 7 \<in> set (drop (length (events empty_map_state))
      (events (no_file_cell world_without_shapes 10 10 empty_map_state)))"
    by simp
  obtain s where s: "main world_with_shapes [''swbd_mask'', ''60''] = Inr s"
    using main_with_shapes by blast
  have "record_writes
     (drop (length (events (write_empty_map
              (write_header world_with_shapes (resolution_arg [''swbd_mask'', ''60'']) initial_state))))
           (events s)) =
     map (\<lambda>k. (16384 + 7 * k, 7)) [0..<64800]"
    using s by (rule t[THEN conjunct2, THEN conjunct2, THEN conjunct2, THEN conjunct2, rule_format])
  then have m: "\<not> isl (main world_with_shapes [''swbd_mask'', ''60'']) \<and>
   record_writes
     (drop (length (events (write_empty_map (write_header world_with_shapes 60 initial_state))))
           (events (projr (main world_with_shapes [''swbd_mask'', ''60''])))) =
   map (\<lambda>k. (16384 + 7 * k, 7)) [0..<64800]"
    unfolding resolution_arg_60 s by (simp only: sum.sel sum.disc simp_thms)
  show ?thesis using c a w m by blast
qed

subsection \<open>The compressor step and the size of the record\<close>

lemma world_deflate_fails_fields:
  "SHPOpen world_deflate_fails n = Some [point_shape]"
  "find_shp world_deflate_fails lat lon = Some 0"
  "cell_compress world_deflate_fails resolution num_threads p lat lon = (-4, [])"
  "ofile_opens world_deflate_fails"
  "check_args world_deflate_fails [''swbd_mask'', ''60''] = Inr (60, 4)"
  by (simp_all add: world_deflate_fails_def world_with_shapes_def cell_compress_def compress2_def
      Z_OK_def find_shp_def upt_rec check_args_def resolution_arg_def num_threads_arg_def
      sscanf_d_values)

lemma first_cell: "cells = (-90, -180) # tl cells"
proof -
  have n: "cells \<noteq> []" using length_cells by auto
  have "hd cells = cells ! 0" using n by (simp add: hd_conv_nth)
  also have "\<dots> = (-90, -180)" using cells_nth[of 0] by simp
  finally show ?thesis using n by (metis list.collapse)
qed

lemma start_with_shapes:
  "length (content (ofp (write_empty_map (write_header world_with_shapes 60 initial_state)))) = 469984"
  using start_state(3)[OF header_with_shapes_short] by (simp add: data_start_def)

lemma map_address_first: "map_address_of (-90) (-180) = 16384"
  using map_address_valid(1)[of "(-90, -180)"] by (simp add: valid_cell_def)

text \<open>
  Claim C3. For a cell with a shape file whose polygons are read, at a resolution of 1, 3,
  10, 30 or 60, in a state the loop of main reaches after some cells: whenever compress2
  reports a status other than 0 the cell fails with that status, and so does the loop of
  main whatever cells follow, and main itself; a compressed stream longer than 16777215
  bytes is longer than the room main gives the compressor, so that the status is not 0 and
  the run is aborted; and when the run is not aborted at the cell, the compressed length is
  at most 1782100, fits the 24 bits of the size field, and is the size of the record main
  builds and of the record read back from the file (as long as the end of the file fits
  32 bits).
\<close>

theorem compressor_step:
  assumes "resolution \<in> {1, 3, 10, 30, 60}"
    and "valid_cell (lat, lon)"
    and "run_cells w resolution num_threads cs
           (write_empty_map (write_header w resolution initial_state)) = Inr s"
    and "find_shp w lat lon = Some file_ext"
    and "SHPOpen w (shpname_of lat lon file_ext) = Some shapes" and "load_polys shapes = Inr p"
  shows "(let n = fst (cell_compress w resolution num_threads p lat lon);
              out_buf = snd (cell_compress w resolution num_threads p lat lon);
              stream = zlib_header @
                         snd (deflate w (cell_bit_block w resolution num_threads p lat lon) 9);
              s' = store_block (map_address_of lat lon) out_buf (cell_log resolution num_threads s)
          in (n \<noteq> 0 \<longrightarrow>
                process_cell w resolution num_threads (lat, lon) s = Inl (CompressFailed n) \<and>
                (\<forall>rest. run_cells w resolution num_threads (cs @ (lat, lon) # rest)
                          (write_empty_map (write_header w resolution initial_state)) =
                        Inl (CompressFailed n)) \<and>
                (\<forall>argv rest.
                   check_args w argv = Inr (resolution, num_threads) \<and> ofile_opens w \<and>
                   cells = cs @ (lat, lon) # rest \<longrightarrow>
                   main w argv = Inl (CompressFailed n))) \<and>
             (16777215 < length stream \<longrightarrow> n \<noteq> 0) \<and>
             (n = 0 \<longrightarrow>
                process_cell w resolution num_threads (lat, lon) s = Inr s' \<and>
                out_buf = stream \<and>
                length out_buf \<le> 1782100 \<and> length out_buf < 2 ^ 24 \<and>
                bit_unpack (mapbuf s') 32 24 = length out_buf \<and>
                (length (content (ofp s)) < 2 ^ 32 \<longrightarrow>
                   record_size (content (ofp s')) (lat, lon) = length out_buf)))"
proof -
  let ?n = "fst (cell_compress w resolution num_threads p lat lon)"
  let ?out = "snd (cell_compress w resolution num_threads p lat lon)"
  let ?stream = "zlib_header @ snd (deflate w (cell_bit_block w resolution num_threads p lat lon) 9)"
  let ?s0 = "write_empty_map (write_header w resolution initial_state)"
  let ?s' = "store_block (map_address_of lat lon) ?out (cell_log resolution num_threads s)"
  note st = main_loop_state[OF assms(3)]
  have pc: "process_cell w resolution num_threads (lat, lon) s =
      (if ?n \<noteq> 0 then Inl (CompressFailed ?n) else Inr ?s')"
    using shape_cell_unfold[OF assms(5,6)] assms(4) by (simp add: process_cell_def)
  have fail: "process_cell w resolution num_threads (lat, lon) s = Inl (CompressFailed ?n)"
    if "?n \<noteq> 0"
    using pc that by simp
  have runs: "run_cells w resolution num_threads (cs @ (lat, lon) # rest) ?s0 =
                Inl (CompressFailed ?n)"
    if "?n \<noteq> 0" for rest
    using run_cells_abort[OF assms(3) fail[OF that]] .
  have mains: "main w argv = Inl (CompressFailed ?n)"
    if "?n \<noteq> 0" "check_args w argv = Inr (resolution, num_threads)" "ofile_opens w"
       "cells = cs @ (lat, lon) # rest" for argv rest
    using runs[OF that(1), of rest] that(2,3,4) by (simp add: main_def)
  have long: "?n \<noteq> 0" if "16777215 < length ?stream"
    using cell_compress_long_stream[OF assms(1) that] .
  have ok: "process_cell w resolution num_threads (lat, lon) s = Inr ?s' \<and>
            ?out = ?stream \<and> length ?out \<le> 1782100 \<and> length ?out < 2 ^ 24 \<and>
            bit_unpack (mapbuf ?s') 32 24 = length ?out \<and>
            (length (content (ofp s)) < 2 ^ 32 \<longrightarrow>
               record_size (content (ofp ?s')) (lat, lon) = length ?out)"
    if z: "?n = 0"
  proof -
    have run: "process_cell w resolution num_threads (lat, lon) s = Inr ?s'"
      using pc z by simp
    note c = cell_compress_ok[OF assms(1) z]
    have lt: "length ?out < 2 ^ 24" using c(1) by simp
    have m': "length (mapbuf (cell_log resolution num_threads s)) = 7"
      using st(2) by (simp add: cell_log_fields)
    have "bit_unpack (mapbuf ?s') 32 24 = length ?out mod 2 ^ 24"
      unfolding store_block_mapbuf by (rule block_record_size[OF m'])
    then have mb: "bit_unpack (mapbuf ?s') 32 24 = length ?out" using lt by simp
    have rd: "record_size (content (ofp ?s')) (lat, lon) = length ?out"
      if "length (content (ofp s)) < 2 ^ 32"
      by (rule shape_cell_record(2)[OF assms(2,1) z st(1) that st(2)])
    show ?thesis using run c(1,3) lt mb rd by simp
  qed
  show ?thesis unfolding Let_def using fail runs mains long ok by blast
qed

theorem compressor_step_witness:
  "process_cell world_with_shapes 60 4 (-90, -180)
     (write_empty_map (write_header world_with_shapes 60 initial_state)) =
     Inr (store_block 16384 [120, 218, 1]
            (cell_log 60 4 (write_empty_map (write_header world_with_shapes 60 initial_state)))) \<and>
   bit_unpack (mapbuf (store_block 16384 [120, 218, 1]
            (cell_log 60 4 (write_empty_map (write_header world_with_shapes 60 initial_state)))))
     32 24 = 3 \<and>
   record_size (content (ofp (store_block 16384 [120, 218, 1]
            (cell_log 60 4 (write_empty_map (write_header world_with_shapes 60 initial_state))))))
     (-90, -180) = 3 \<and>
   main world_deflate_fails [''swbd_mask'', ''60''] = Inl (CompressFailed (-4))"
proof -
  let ?s0 = "write_empty_map (write_header world_with_shapes 60 initial_state)"
  let ?f0 = "write_empty_map (write_header world_deflate_fails 60 initial_state)"
  have r: "(60::int) \<in> {1, 3, 10, 30, 60}" by simp
  have v: "valid_cell (-90, -180)" by (simp add: valid_cell_def)
  have reach: "run_cells world_with_shapes 60 4 [] ?s0 = Inr ?s0" by simp
  have l32: "length (content (ofp ?s0)) < 2 ^ 32" by (simp add: start_with_shapes)
  note t = compressor_step[OF r v reach find_shp_with_shapes world_with_shapes_fields(1)
      load_point_shape]
  have a: "process_cell world_with_shapes 60 4 (-90, -180) ?s0 =
       Inr (store_block 16384 [120, 218, 1] (cell_log 60 4 ?s0)) \<and>
     bit_unpack (mapbuf (store_block 16384 [120, 218, 1] (cell_log 60 4 ?s0))) 32 24 = 3 \<and>
     record_size (content (ofp (store_block 16384 [120, 218, 1] (cell_log 60 4 ?s0))))
       (-90, -180) = 3"
  proof -
    have "process_cell world_with_shapes 60 4 (-90, -180) ?s0 =
       Inr (store_block 16384 [120, 218, 1] (cell_log 60 4 ?s0)) \<and>
     bit_unpack (mapbuf (store_block 16384 [120, 218, 1] (cell_log 60 4 ?s0))) 32 24
       = length [120::byte, 218, 1] \<and>
     record_size (content (ofp (store_block 16384 [120, 218, 1] (cell_log 60 4 ?s0))))
       (-90, -180) = length [120::byte, 218, 1]"
      using t[unfolded Let_def cell_compress_with_shapes fst_conv snd_conv map_address_first] l32
      by blast
    then show ?thesis by simp
  qed
  have reach': "run_cells world_deflate_fails 60 4 [] ?f0 = Inr ?f0" by simp
  note u = compressor_step[OF r v reach' world_deflate_fails_fields(2)
      world_deflate_fails_fields(1) load_point_shape]
  have ne: "(-4::int) \<noteq> 0" by simp
  have c: "cells = [] @ (-90, -180) # tl cells" using first_cell by simp
  have b: "main world_deflate_fails [''swbd_mask'', ''60''] = Inl (CompressFailed (-4))"
    using u[unfolded Let_def world_deflate_fails_fields(3) fst_conv snd_conv] ne
      world_deflate_fails_fields(4,5) c
    by blast
  show ?thesis using a b by blast
qed

subsection \<open>The record first, the block second\<close>

text \<open>
  Claim C4, as the source has it. For a cell with a shape file whose polygons are read
  and whose block is compressed with status 0, at a resolution of 1, 3, 10, 30 or 60, in
  a state the loop of main reaches after some cells, with an output file shorter than
  \<open>2\<^sup>3\<^sup>1\<close> bytes: the cell is processed without an error; after the workers are started
  and the compressor is called, the seven bytes of the record are written at the address
  of the cell and then the compressed block is written at the former end of the file (the
  record first, the block second); the record reads the former end of the file as code and
  the compressed length as size, the compressed block stands in the file at that code, and
  the file has grown by the compressed length.
\<close>

theorem record_then_block:
  assumes "resolution \<in> {1, 3, 10, 30, 60}"
    and "valid_cell (lat, lon)"
    and "run_cells w resolution num_threads cs
           (write_empty_map (write_header w resolution initial_state)) = Inr s"
    and "find_shp w lat lon = Some file_ext"
    and "SHPOpen w (shpname_of lat lon file_ext) = Some shapes" and "load_polys shapes = Inr p"
    and "fst (cell_compress w resolution num_threads p lat lon) = 0"
    and "length (content (ofp s)) < 2 ^ 31"
  shows "(let out_buf = snd (cell_compress w resolution num_threads p lat lon);
              s' = store_block (map_address_of lat lon) out_buf (cell_log resolution num_threads s)
          in process_cell w resolution num_threads (lat, lon) s = Inr s' \<and>
             events s' =
               events s @ map (\<lambda>i. MaskStart (int i)) [0..<nat num_threads] @
               [Compress (nat (bit_block_size (3600 div resolution))),
                FWrite (nat (16384 + ((lat + 90) * 360 + (lon + 180)) * 7)) 7,
                FWrite (length (content (ofp s))) (length out_buf)] \<and>
             record_code (content (ofp s')) (lat, lon) = length (content (ofp s)) \<and>
             record_size (content (ofp s')) (lat, lon) = length out_buf \<and>
             take (length out_buf) (drop (length (content (ofp s))) (content (ofp s'))) = out_buf \<and>
             length (content (ofp s')) = length (content (ofp s)) + length out_buf)"
proof -
  note st = main_loop_state[OF assms(3)]
  note e = shape_cell_effect[OF assms(2,5,6,7) st(1) assms(8) st(2)]
  have pr: "process_cell w resolution num_threads (lat, lon) s =
      Inr (store_block (map_address_of lat lon)
             (snd (cell_compress w resolution num_threads p lat lon))
             (cell_log resolution num_threads s))"
    using e(1) assms(4) by (simp add: process_cell_def)
  have ma: "map_address_of lat lon = 16384 + ((lat + 90) * 360 + (lon + 180)) * 7"
    using map_address_valid(1)[OF assms(2)] by simp
  have l32: "length (content (ofp s)) < 2 ^ 32" using assms(8) by simp
  note c = shape_cell_record[OF assms(2,1,7) st(1) l32 st(2)]
  show ?thesis
    unfolding Let_def
    using pr e(3) c(1) c(2) c(3)[OF assms(8)] by (simp only: ma simp_thms)
qed

theorem record_then_block_witness:
  "process_cell world_with_shapes 60 4 (-90, -180)
     (write_empty_map (write_header world_with_shapes 60 initial_state)) =
     Inr (store_block 16384 [120, 218, 1]
            (cell_log 60 4 (write_empty_map (write_header world_with_shapes 60 initial_state)))) \<and>
   events (store_block 16384 [120, 218, 1]
            (cell_log 60 4 (write_empty_map (write_header world_with_shapes 60 initial_state)))) =
     events (write_empty_map (write_header world_with_shapes 60 initial_state)) @
     [MaskStart 0, MaskStart 1, MaskStart 2, MaskStart 3, Compress 450,
      FWrite 16384 7, FWrite 469984 3] \<and>
   record_code (content (ofp (store_block 16384 [120, 218, 1]
            (cell_log 60 4 (write_empty_map (write_header world_with_shapes 60 initial_state))))))
     (-90, -180) = 469984 \<and>
   record_size (content (ofp (store_block 16384 [120, 218, 1]
            (cell_log 60 4 (write_empty_map (write_header world_with_shapes 60 initial_state))))))
     (-90, -180) = 3"
proof -
  let ?s0 = "write_empty_map (write_header world_with_shapes 60 initial_state)"
  have r: "(60::int) \<in> {1, 3, 10, 30, 60}" by simp
  have v: "valid_cell (-90, -180)" by (simp add: valid_cell_def)
  have reach: "run_cells world_with_shapes 60 4 [] ?s0 = Inr ?s0" by simp
  have z: "fst (cell_compress world_with_shapes 60 4 (no_polys\<lparr>num_poly := 0\<rparr>) (-90) (-180)) = 0"
    by (simp add: cell_compress_with_shapes)
  have l: "length (content (ofp ?s0)) < 2 ^ 31" by (simp add: start_with_shapes)
  note t = record_then_block[OF r v reach find_shp_with_shapes world_with_shapes_fields(1)
      load_point_shape z l]
  have ma: "nat (16384 + ((- 90 + 90) * 360 + (- 180 + 180)) * 7) = 16384" by simp
  have n3: "length [120::byte, 218, 1] = 3" by simp
  show ?thesis
    using t[unfolded Let_def cell_compress_with_shapes snd_conv map_address_first
        start_with_shapes bit_block_size_60 ma n3]
    by (simp add: bit_block_size_60 workers_4)
qed

end
